theory Spec2Isabelle
  imports Main "HOL-Library.Word" "HOL-Library.Monad_Syntax"
begin

unbundle bit_operations_syntax

section \<open>Machine types and primitives\<close>

type_synonym u64 = "64 word"
type_synonym u32 = "32 word"
type_synonym u16 = "16 word"
type_synonym u8 = "8 word"

text \<open>\<open>std::popcount\<close> on a 64-bit word.\<close>

definition popcount :: "u64 \<Rightarrow> nat" where
  "popcount w = length (filter (bit w) [0..<64])"

text \<open>\<open>__builtin_clzll\<close>: the number of leading zero bits (the source only calls it on
  non-zero words).\<close>

definition clzll :: "u64 \<Rightarrow> nat" where
  "clzll w = length (takeWhile (\<lambda>i. \<not> bit w i) (rev [0..<64]))"

text \<open>Reading \<open>v[i]\<close> of a \<open>std::vector\<close>; an index past the end is undefined behaviour
  in the source and \<open>None\<close> here.\<close>

definition vec_at :: "'a list \<Rightarrow> nat \<Rightarrow> 'a option" where
  "vec_at xs i = (if i < length xs then Some (xs ! i) else None)"

text \<open>Writing \<open>v[i] = x\<close>.\<close>

definition vec_set :: "'a list \<Rightarrow> nat \<Rightarrow> 'a \<Rightarrow> 'a list option" where
  "vec_set xs i x = (if i < length xs then Some (xs[i := x]) else None)"

definition EVERY_OTHER_1_POS :: u64 where "EVERY_OTHER_1_POS = 8192"
definition BLOCK_SIZE :: u64 where "BLOCK_SIZE = 512"
definition L0BLOCK_SIZE :: u64 where "L0BLOCK_SIZE = 0xFFFFFFFFFFF"
definition SUPERBLOCKS_PER_L0 :: u64 where "SUPERBLOCKS_PER_L0 = 0x7FFFFFFF"

section \<open>The bitvector object\<close>

record bitvector =
  L0SingleBlockData :: u64
  oneCount :: u64
  zeroCount :: u64
  lastOnePos :: u64
  lastZeroPos :: u64
  vector :: "u64 list"
  superBlocks :: "u64 list"
  selectCache_0 :: "u32 list"
  selectCache_1 :: "u32 list"

subsection \<open>Constructor\<close>

text \<open>The value of a \<open>char\<close>, read as a signed byte.\<close>

definition char_value :: "char \<Rightarrow> int" where
  "char_value c = (let v = of_char c in if v < 128 then v else v - 256)"

text \<open>The test \<open>c > '1' || c < '0'\<close>.\<close>

definition skipped :: "char \<Rightarrow> bool" where
  "skipped c \<longleftrightarrow> char_value c > 49 \<or> char_value c < 48"

text \<open>The loop over the characters: \<open>innerIndex\<close>, \<open>outerIndex\<close>,
  \<open>currentConstruction\<close> and the word array are threaded through.\<close>

fun ctor_loop :: "string \<Rightarrow> nat \<Rightarrow> nat \<Rightarrow> u64 \<Rightarrow> u64 list \<Rightarrow> (nat \<times> u64 \<times> u64 list) option" where
  "ctor_loop [] innerIndex outerIndex cur vec = Some (outerIndex, cur, vec)"
| "ctor_loop (c # cs) innerIndex outerIndex cur vec =
     (if skipped c then ctor_loop cs innerIndex outerIndex cur vec
      else
        let cur' = cur OR push_bit innerIndex (word_of_int (char_value c - 48));
            innerIndex' = innerIndex + 1
        in if innerIndex' \<ge> 64
           then (case vec_set vec outerIndex cur' of
                   None \<Rightarrow> None
                 | Some vec' \<Rightarrow> ctor_loop cs 0 (outerIndex + 1) 0 vec')
           else ctor_loop cs innerIndex' outerIndex cur' vec)"

definition bitvector_of :: "string \<Rightarrow> bitvector option" where
  "bitvector_of str =
     (case ctor_loop str 0 0 0 (replicate (length str div 64 + 1) 0) of
        None \<Rightarrow> None
      | Some (outerIndex, cur, vec) \<Rightarrow>
          (case vec_set vec outerIndex cur of
             None \<Rightarrow> None
           | Some vec' \<Rightarrow>
               Some \<lparr> L0SingleBlockData = 0, oneCount = 0, zeroCount = 0,
                      lastOnePos = 0, lastZeroPos = 0, vector = vec',
                      superBlocks = [], selectCache_0 = [], selectCache_1 = [] \<rparr>))"

subsection \<open>access\<close>

definition access :: "bitvector \<Rightarrow> u64 \<Rightarrow> u16 option" where
  "access bv ptr =
     (case vec_at (vector bv) (unat (drop_bit 6 ptr)) of
        None \<Rightarrow> None
      | Some w \<Rightarrow> Some (ucast (drop_bit (unat (ptr AND 63)) w AND 1)))"

subsection \<open>rank\<close>

text \<open>The loop of \<open>rank_1\<close> over the words of the block that come before the word of
  \<open>ptr\<close>; \<open>blockSum\<close> is a \<open>uint16_t\<close>.\<close>

definition rank_words :: "u64 list \<Rightarrow> u64 \<Rightarrow> nat \<Rightarrow> u16 option" where
  "rank_words vec beginBlockIndex which64BitWord =
     fold (\<lambda>k acc. do {
             blockSum \<leftarrow> acc;
             w \<leftarrow> vec_at vec (unat (beginBlockIndex + of_nat k));
             Some (blockSum + of_nat (popcount w))
           }) [0..<which64BitWord] (Some 0)"

definition rank_1 :: "bitvector \<Rightarrow> u64 \<Rightarrow> u64 option" where
  "rank_1 bv ptr = do {
     let superblockIndex = push_bit 1 (drop_bit 12 ptr);
     metadata1 \<leftarrow> vec_at (superBlocks bv) (unat superblockIndex);
     metadata2 \<leftarrow> vec_at (superBlocks bv) (unat (superblockIndex + 1));
     let blockId = unat (drop_bit 9 ptr AND 7);
     let preOnesCount0 = drop_bit 20 metadata1 + (if ptr > L0BLOCK_SIZE then L0SingleBlockData bv else 0);
     let preOnesCount =
          (if blockId = 1 then preOnesCount0 + (drop_bit 8 metadata1 AND 0xFFF)
           else if blockId = 2 then preOnesCount0 + (push_bit 4 (metadata1 AND 0xFF) OR drop_bit 60 metadata2)
           else if blockId > 2 then preOnesCount0 + (drop_bit ((blockId - 3) * 12) metadata2 AND 0xFFF)
           else preOnesCount0);
     let beginBlockIndex = push_bit 3 (drop_bit 9 ptr);
     let which64BitWord = unat (drop_bit 6 ptr AND 7);
     blockSum \<leftarrow> rank_words (vector bv) beginBlockIndex which64BitWord;
     let wordCoverageMask = push_bit (unat (ptr AND 0x3F)) 1 - 1;
     w \<leftarrow> vec_at (vector bv) (unat (beginBlockIndex + of_nat which64BitWord));
     let blockSum' = blockSum + of_nat (popcount (w AND wordCoverageMask));
     Some (preOnesCount + ucast blockSum')
   }"

definition rank :: "bitvector \<Rightarrow> u64 \<Rightarrow> u8 \<Rightarrow> u64 option" where
  "rank bv ptr bitValue =
     (if ptr \<le> 0 then Some 0
      else
        let lim = push_bit 6 (of_nat (length (vector bv))) - 1;
            ptr' = (if ptr > lim then lim else ptr)
        in if bitValue = 1 then rank_1 bv ptr'
           else do { r \<leftarrow> rank_1 bv ptr'; Some (ptr' - r) })"

definition superRank :: "bitvector \<Rightarrow> u64 \<Rightarrow> u64 option" where
  "superRank bv ptr = do {
     metadata1 \<leftarrow> vec_at (superBlocks bv) (unat (push_bit 1 ptr));
     Some ((if ptr > L0BLOCK_SIZE then L0SingleBlockData bv else 0) + drop_bit 20 metadata1)
   }"

subsection \<open>select\<close>

text \<open>The binary searches over superblock numbers. They read the superblock array and
  loop while \<open>end > start\<close>; a run that reads out of range or never leaves the loop
  is \<open>None\<close>.\<close>

partial_function (option) select_1_iterative :: "bitvector \<Rightarrow> u64 \<Rightarrow> u64 \<Rightarrow> u64 \<Rightarrow> u64 option" where
  "select_1_iterative bv num start end' =
     (if end' > start then do {
        let middle = drop_bit 1 (start + end');
        r \<leftarrow> superRank bv middle;
        if r < num then select_1_iterative bv num (middle + 1) end'
        else select_1_iterative bv num start middle
      } else Some (start - 1))"

partial_function (option) select_0_iterative :: "bitvector \<Rightarrow> u64 \<Rightarrow> u64 \<Rightarrow> u64 \<Rightarrow> u64 option" where
  "select_0_iterative bv num start end' =
     (if end' > start then do {
        let middle = drop_bit 1 (start + end');
        r \<leftarrow> superRank bv middle;
        if push_bit 12 middle - r < num then select_0_iterative bv num (middle + 1) end'
        else select_0_iterative bv num start middle
      } else Some (start - 1))"

declare select_1_iterative.simps [code]
declare select_0_iterative.simps [code]

text \<open>The \<open>do { ... } while (false)\<close> block of both selects, which tests the seven
  stored block values in turn: the first value that reaches \<open>remaining\<close> ends the scan
  and the previous value is subtracted; after the seventh the block is the eighth and the
  seventh value is subtracted. The result is \<open>(remaining, blockIndex)\<close>.\<close>

fun block_scan :: "u64 list \<Rightarrow> u64 \<Rightarrow> u64 \<Rightarrow> nat \<Rightarrow> u64 \<times> nat" where
  "block_scan [] previousMetadataValue remaining blockIndex =
     (remaining - previousMetadataValue, blockIndex)"
| "block_scan (currentMetadataValue # rest) previousMetadataValue remaining blockIndex =
     (if currentMetadataValue \<ge> remaining then (remaining - previousMetadataValue, blockIndex)
      else block_scan rest currentMetadataValue remaining (blockIndex + 1))"

text \<open>The seven cumulative one-counts stored in a superblock's two metadata words.\<close>

definition block_fields :: "u64 \<Rightarrow> u64 \<Rightarrow> u64 list" where
  "block_fields metadata1 metadata2 =
     [drop_bit 8 metadata1 AND 0xFFF,
      push_bit 4 (metadata1 AND 0xFF) OR drop_bit 60 metadata2,
      metadata2 AND 0xFFF,
      drop_bit 12 metadata2 AND 0xFFF,
      drop_bit 24 metadata2 AND 0xFFF,
      drop_bit 36 metadata2 AND 0xFFF,
      drop_bit 48 metadata2 AND 0xFFF]"

text \<open>The inner \<open>while (remaining > 0)\<close> loop that walks the bits of a word; \<open>bitIndex\<close>
  is a \<open>uint8_t\<close>.\<close>

partial_function (option) bit_loop :: "u64 \<Rightarrow> u64 \<Rightarrow> u8 \<Rightarrow> u8 option" where
  "bit_loop remaining bitword bitIndex =
     (if remaining > 0
      then bit_loop (remaining - (bitword AND 1)) (drop_bit 1 bitword) (bitIndex + 1)
      else Some bitIndex)"

declare bit_loop.simps [code]

text \<open>The \<open>for\<close> loop over the (at most eight) words of the block. \<open>cmpl\<close> tells whether
  the word is complemented first (\<open>select_0\<close>) or not (\<open>select_1\<close>); \<open>todo\<close> counts the
  iterations left, so \<open>index = 8 - todo\<close>.\<close>

fun word_loop :: "bool \<Rightarrow> u64 list \<Rightarrow> u64 \<Rightarrow> u64 \<Rightarrow> u64 \<Rightarrow> nat \<Rightarrow> u64 option" where
  "word_loop cmpl vec wordIndex finalPosition remaining 0 = Some finalPosition"
| "word_loop cmpl vec wordIndex finalPosition remaining (Suc todo) = do {
     let index = 7 - todo;
     w \<leftarrow> vec_at vec (unat (wordIndex + of_nat index));
     let bitword = (if cmpl then NOT w else w);
     let inWord = (of_nat (popcount bitword) :: u64);
     if remaining > inWord then word_loop cmpl vec wordIndex finalPosition (remaining - inWord) todo
     else do {
       bitIndex \<leftarrow> bit_loop remaining bitword (0 - (if remaining > 0 then 1 else 0));
       Some (finalPosition + push_bit 6 (of_nat index) + ucast bitIndex)
     }
   }"

definition select_1 :: "bitvector \<Rightarrow> u64 \<Rightarrow> u64 option" where
  "select_1 bv num =
     (if num = oneCount bv then Some (lastOnePos bv)
      else do {
        let sz = length (superBlocks bv);
        sb2 \<leftarrow> (if sz \<le> 2 then Some 0 else vec_at (superBlocks bv) 2);
        superblockIndex \<leftarrow>
          (if sz \<le> 2 \<or> num \<le> drop_bit 20 sb2 then Some 0
           else do {
             lastm \<leftarrow> vec_at (superBlocks bv) (sz - 2);
             if num > drop_bit 20 lastm then Some (of_nat sz - 2)
             else do {
               let start = drop_bit 13 num;
               (start', end') \<leftarrow>
                 (if unat (start + 1) \<ge> length (selectCache_1 bv)
                  then Some (start, drop_bit 1 (of_nat sz) - 1)
                  else do {
                    ce \<leftarrow> vec_at (selectCache_1 bv) (unat start);
                    cs \<leftarrow> (if start = 0 then Some 0 else vec_at (selectCache_1 bv) (unat (start - 1)));
                    Some (if start = 0 then 0 else ucast (cs - 1), ucast (ce + 1))
                  });
               r \<leftarrow> select_1_iterative bv num start' end';
               Some (push_bit 1 r)
             }
           });
        metadata1 \<leftarrow> vec_at (superBlocks bv) (unat superblockIndex);
        metadata2 \<leftarrow> vec_at (superBlocks bv) (unat (superblockIndex + 1));
        let remaining = num - drop_bit 20 metadata1;
        let remaining = (if push_bit 11 superblockIndex > L0BLOCK_SIZE
                         then remaining - L0SingleBlockData bv else remaining);
        let (remaining, blockIndex) = block_scan (block_fields metadata1 metadata2) 0 remaining 0;
        let wordIndex = push_bit 5 superblockIndex + push_bit 3 (of_nat blockIndex);
        let finalPosition = push_bit 6 wordIndex;
        word_loop False (vector bv) wordIndex finalPosition remaining 8
      })"

definition select_0 :: "bitvector \<Rightarrow> u64 \<Rightarrow> u64 option" where
  "select_0 bv num =
     (if num = zeroCount bv then Some (lastZeroPos bv)
      else do {
        let sz = length (superBlocks bv);
        sb2 \<leftarrow> (if sz \<le> 2 then Some 0 else vec_at (superBlocks bv) 2);
        superblockIndex \<leftarrow>
          (if sz \<le> 2 \<or> num \<le> push_bit 12 1 - drop_bit 20 sb2 then Some 0
           else do {
             lastm \<leftarrow> vec_at (superBlocks bv) (sz - 2);
             if num > push_bit 11 (of_nat sz - 2) - drop_bit 20 lastm then Some (of_nat sz - 2)
             else do {
               let start = drop_bit 13 num;
               (start', end') \<leftarrow>
                 (if unat start \<ge> length (selectCache_0 bv)
                  then Some (start, drop_bit 1 (of_nat sz) - 1)
                  else do {
                    ce \<leftarrow> vec_at (selectCache_0 bv) (unat start);
                    cs \<leftarrow> (if start = 0 then Some 0 else vec_at (selectCache_0 bv) (unat (start - 1)));
                    Some (if start = 0 then 0 else ucast (cs - 1), ucast (ce + 1))
                  });
               r \<leftarrow> select_0_iterative bv num start' end';
               Some (push_bit 1 r)
             }
           });
        metadata1 \<leftarrow> vec_at (superBlocks bv) (unat superblockIndex);
        metadata2 \<leftarrow> vec_at (superBlocks bv) (unat (superblockIndex + 1));
        let remaining = num - (push_bit 11 superblockIndex - drop_bit 20 metadata1);
        let remaining = (if push_bit 11 superblockIndex > L0BLOCK_SIZE
                         then remaining - (L0BLOCK_SIZE - L0SingleBlockData bv) else remaining);
        let vals = map2 (\<lambda>t f. t - f) [512, 1024, 1536, 2048, 2560, 3072, 3584]
                     (block_fields metadata1 metadata2);
        let (remaining, blockIndex) = block_scan vals 0 remaining 0;
        let wordIndex = push_bit 5 superblockIndex + push_bit 3 (of_nat blockIndex);
        let finalPosition = push_bit 6 wordIndex;
        word_loop True (vector bv) wordIndex finalPosition remaining 8
      })"

definition select :: "bitvector \<Rightarrow> u64 \<Rightarrow> u8 \<Rightarrow> u64 option" where
  "select bv i byteValue = (if byteValue = 1 then select_1 bv i else select_0 bv i)"


subsection \<open>buildHelpers\<close>

text \<open>The local variables of \<open>buildHelpers\<close>. \<open>wordIndex\<close> and \<open>blockIndex\<close> are
  \<open>uint8_t\<close>: naturals here, with the wrap-around at 256 written out.\<close>

record build_locals =
  wordIndex :: nat
  blockIndex :: nat
  metadata1Builder :: u64
  metadata2Builder :: u64
  L0BlockOneCounter :: u64
  superBlockOneCounter :: u64
  superblockIndex :: u64
  nextSelectCacheThreshold_0 :: u64
  nextSelectCacheThreshold_1 :: u64

definition init_locals :: build_locals where
  "init_locals = \<lparr> wordIndex = 0, blockIndex = 0, metadata1Builder = 0, metadata2Builder = 0,
     L0BlockOneCounter = 0, superBlockOneCounter = 0, superblockIndex = 0,
     nextSelectCacheThreshold_0 = EVERY_OTHER_1_POS,
     nextSelectCacheThreshold_1 = EVERY_OTHER_1_POS \<rparr>"

text \<open>First part of the loop body: the counters and the last positions.\<close>

definition count_word :: "nat \<Rightarrow> u64 \<Rightarrow> bitvector \<times> build_locals \<Rightarrow> bitvector \<times> build_locals" where
  "count_word vectorIndex word s =
     (let (bv, loc) = s;
          onesInBlock = popcount word
      in (bv\<lparr> oneCount := oneCount bv + of_nat onesInBlock,
              zeroCount := zeroCount bv + of_nat (64 - onesInBlock),
              lastOnePos := (if onesInBlock > 0
                             then push_bit 6 (of_nat vectorIndex) + word_of_int (63 - int (clzll word))
                             else lastOnePos bv),
              lastZeroPos := (if onesInBlock < 64
                              then push_bit 6 (of_nat vectorIndex) + word_of_int (63 - int (clzll (NOT word)))
                              else lastZeroPos bv) \<rparr>,
          loc\<lparr> wordIndex := (wordIndex loc + 1) mod 256,
               superBlockOneCounter := superBlockOneCounter loc + of_nat onesInBlock,
               L0BlockOneCounter := L0BlockOneCounter loc + of_nat onesInBlock \<rparr>))"

text \<open>Second part: the two select caches, which store superblock numbers as \<open>uint32_t\<close>.\<close>

definition cache_word :: "bitvector \<times> build_locals \<Rightarrow> bitvector \<times> build_locals" where
  "cache_word s =
     (let (bv, loc) = s;
          (bv, loc) =
            (if oneCount bv \<ge> nextSelectCacheThreshold_1 loc
             then (bv\<lparr> selectCache_1 := selectCache_1 bv @ [ucast (drop_bit 1 (superblockIndex loc))] \<rparr>,
                   loc\<lparr> nextSelectCacheThreshold_1 := nextSelectCacheThreshold_1 loc + EVERY_OTHER_1_POS \<rparr>)
             else (bv, loc))
      in (if zeroCount bv \<ge> nextSelectCacheThreshold_0 loc
          then (bv\<lparr> selectCache_0 := selectCache_0 bv @ [ucast (drop_bit 1 (superblockIndex loc))] \<rparr>,
                loc\<lparr> nextSelectCacheThreshold_0 := nextSelectCacheThreshold_0 loc + EVERY_OTHER_1_POS \<rparr>)
          else (bv, loc)))"

text \<open>Third part, run at the end of a block or at the last word: a finished superblock is
  written to the superblock array, a finished block is folded into the metadata builders.\<close>

definition close_block :: "bitvector \<times> build_locals \<Rightarrow> (bitvector \<times> build_locals) option" where
  "close_block s =
     (let (bv, loc) = s in
      if blockIndex loc = 7 then do {
        sb1 \<leftarrow> vec_set (superBlocks bv) (unat (superblockIndex loc)) (metadata1Builder loc);
        sb2 \<leftarrow> vec_set sb1 (unat (superblockIndex loc + 1)) (metadata2Builder loc);
        let sbi = superblockIndex loc + 2;
        let hit = (drop_bit 1 sbi = SUPERBLOCKS_PER_L0);
        let l0c = (if hit then 0 else L0BlockOneCounter loc);
        Some (bv\<lparr> superBlocks := sb2,
                  L0SingleBlockData := (if hit then oneCount bv else L0SingleBlockData bv) \<rparr>,
              loc\<lparr> wordIndex := 0, superblockIndex := sbi, L0BlockOneCounter := l0c,
                   metadata1Builder := push_bit 20 l0c, metadata2Builder := 0,
                   superBlockOneCounter := 0, blockIndex := 0 \<rparr>)
      } else
        let c = superBlockOneCounter loc;
            b = blockIndex loc;
            loc' =
              (if b = 0 then loc\<lparr> metadata1Builder := metadata1Builder loc OR push_bit 8 (c AND 0xFFF) \<rparr>
               else if b = 1
               then loc\<lparr> metadata1Builder := metadata1Builder loc OR (drop_bit 4 c AND 0xFF),
                        metadata2Builder := metadata2Builder loc OR push_bit 60 (c AND 0xF) \<rparr>
               else loc\<lparr> metadata2Builder := metadata2Builder loc OR push_bit ((b - 2) * 12) (c AND 0xFFF) \<rparr>)
        in Some (bv, loc'\<lparr> wordIndex := 0, blockIndex := (b + 1) mod 256 \<rparr>))"

text \<open>One iteration of the loop over the words.\<close>

definition build_step :: "nat \<Rightarrow> bitvector \<times> build_locals \<Rightarrow> (bitvector \<times> build_locals) option" where
  "build_step vectorIndex s = do {
     word \<leftarrow> vec_at (vector (fst s)) vectorIndex;
     let s = cache_word (count_word vectorIndex word s);
     if wordIndex (snd s) = 8 \<or> (of_nat vectorIndex :: u64) = of_nat (length (vector (fst s))) - 1
     then close_block s else Some s
   }"

definition build_loop :: "nat \<Rightarrow> bitvector \<times> build_locals \<Rightarrow> (bitvector \<times> build_locals) option" where
  "build_loop n s = fold (\<lambda>vectorIndex acc. Option.bind acc (build_step vectorIndex)) [0..<n] (Some s)"

definition buildHelpers :: "bitvector \<Rightarrow> bitvector option" where
  "buildHelpers bv = do {
     let n = length (vector bv);
     let bv = bv\<lparr> superBlocks := replicate (unat (push_bit 1 (drop_bit 6 (of_nat n :: u64)) + 2)) 0 \<rparr>;
     (bv, loc) \<leftarrow> build_loop n (bv, init_locals);
     if unat (superblockIndex loc) < length (superBlocks bv) then do {
       sb1 \<leftarrow> vec_set (superBlocks bv) (unat (superblockIndex loc)) (metadata1Builder loc);
       sb2 \<leftarrow> vec_set sb1 (unat (superblockIndex loc + 1)) (metadata2Builder loc);
       Some (bv\<lparr> superBlocks := sb2 \<rparr>)
     } else Some bv
   }"

text \<open>A bitvector as the driver makes it: constructed from the string, then
  \<open>buildHelpers\<close>.\<close>

definition built :: "string \<Rightarrow> bitvector option" where
  "built str = Option.bind (bitvector_of str) buildHelpers"


subsection \<open>The driver\<close>

text \<open>\<open>main\<close> constructs the bitvector from the second line of the input, builds the
  helpers and then answers the commands one by one (\<open>processCommand\<close>).\<close>

definition run_access :: "string \<Rightarrow> u64 \<Rightarrow> u16 option" where
  "run_access str position = do { v \<leftarrow> built str; access v position }"

definition run_rank :: "string \<Rightarrow> u64 \<Rightarrow> u8 \<Rightarrow> u64 option" where
  "run_rank str position bitValue = do { v \<leftarrow> built str; rank v position bitValue }"

definition run_select :: "string \<Rightarrow> u64 \<Rightarrow> u8 \<Rightarrow> u64 option" where
  "run_select str position bitValue = do { v \<leftarrow> built str; select v position bitValue }"

section \<open>Specification vocabulary\<close>

text \<open>The characters the specification accepts, and the bit sequence \<open>B\<close> they denote.\<close>

definition accepted :: "string \<Rightarrow> string" where
  "accepted s = filter (\<lambda>c. c = CHR ''0'' \<or> c = CHR ''1'') s"

definition bits_of :: "string \<Rightarrow> bool list" where
  "bits_of s = map (\<lambda>c. c = CHR ''1'') (accepted s)"

text \<open>The 64 bits of a word, least significant first, and the bits of a word array.\<close>

definition word_bits :: "u64 \<Rightarrow> bool list" where
  "word_bits w = map (bit w) [0..<64]"

definition bits_of_words :: "u64 list \<Rightarrow> bool list" where
  "bits_of_words ws = concat (map word_bits ws)"

text \<open>What the constructor has done after it has accepted the bits \<open>D\<close>.\<close>

definition ctor_inv :: "bool list \<Rightarrow> nat \<Rightarrow> nat \<Rightarrow> u64 \<Rightarrow> u64 list \<Rightarrow> bool" where
  "ctor_inv D innerIndex outerIndex cur vec \<longleftrightarrow>
     length D = 64 * outerIndex + innerIndex \<and> innerIndex < 64 \<and>
     (\<forall>i<64. bit cur i \<longleftrightarrow> (i < innerIndex \<and> D ! (64 * outerIndex + i))) \<and>
     (\<forall>j<outerIndex. \<forall>i<64. bit (vec ! j) i \<longleftrightarrow> D ! (64 * j + i)) \<and>
     (\<forall>j. outerIndex \<le> j \<and> j < length vec \<longrightarrow> vec ! j = 0)"


text \<open>\<open>occ b B p\<close> is the number of bits equal to \<open>b\<close> in \<open>B[0..p)\<close>: the rank of the
  specification.\<close>

definition occ :: "bool \<Rightarrow> bool list \<Rightarrow> nat \<Rightarrow> nat" where
  "occ b B p = count_list (take p B) b"

section \<open>Vocabulary of the proofs\<close>

definition next_pos :: "nat \<Rightarrow> nat \<Rightarrow> nat \<times> nat \<times> nat \<Rightarrow> nat \<times> nat \<times> nat" where
  "next_pos n k pos =
     (let (sb, blk, wd) = pos in
      if wd + 1 = 8 \<or> k + 1 = n
      then (if blk = 7 then (sb + 1, 0, 0) else (sb, blk + 1, 0))
      else (sb, blk, wd + 1))"

definition pos_ok :: "nat \<Rightarrow> nat \<Rightarrow> nat \<times> nat \<times> nat \<Rightarrow> bool" where
  "pos_ok n k pos \<longleftrightarrow>
     (let (sb, blk, wd) = pos in
      blk < 8 \<and> wd < 8 \<and> k \<le> n \<and>
      (if k < n then k = 64 * sb + 8 * blk + wd
       else wd = 0 \<and> n \<le> 64 * sb + 8 * blk \<and> 64 * sb + 8 * blk < n + 8))"

definition idx_inv :: "nat \<Rightarrow> nat \<times> nat \<times> nat \<Rightarrow> bitvector \<times> build_locals \<Rightarrow> bool" where
  "idx_inv n pos s \<longleftrightarrow>
     (let (sb, blk, wd) = pos; (bv, loc) = s in
      length (vector bv) = n \<and> length (superBlocks bv) = 2 * (n div 64) + 2 \<and>
      wordIndex loc = wd \<and> blockIndex loc = blk \<and> superblockIndex loc = of_nat (2 * sb))"

primrec pos_at :: "nat \<Rightarrow> nat \<Rightarrow> nat \<times> nat \<times> nat" where
  "pos_at n 0 = (0, 0, 0)"
| "pos_at n (Suc k) = next_pos n k (pos_at n k)"

definition last_index :: "bool \<Rightarrow> bool list \<Rightarrow> nat" where
  "last_index b B = length B - 1 - length (takeWhile (\<lambda>x. x \<noteq> b) (rev B))"

definition cnt_inv :: "u64 list \<Rightarrow> nat \<Rightarrow> bitvector \<Rightarrow> bool" where
  "cnt_inv W k bv \<longleftrightarrow>
     vector bv = W \<and>
     oneCount bv = of_nat (occ True (bits_of_words W) (64 * k)) \<and>
     zeroCount bv = of_nat (occ False (bits_of_words W) (64 * k)) \<and>
     lastOnePos bv = of_nat (last_index True (take (64 * k) (bits_of_words W))) \<and>
     lastZeroPos bv = of_nat (last_index False (take (64 * k) (bits_of_words W)))"

text \<open>The code that folds a finished block into the builders.\<close>

definition fold_m1 :: "nat \<Rightarrow> u64 \<Rightarrow> u64 \<Rightarrow> u64" where
  "fold_m1 blk c m1 =
     (if blk = 0 then m1 OR push_bit 8 (c AND 0xFFF)
      else if blk = 1 then m1 OR (drop_bit 4 c AND 0xFF)
      else m1)"

definition fold_m2 :: "nat \<Rightarrow> u64 \<Rightarrow> u64 \<Rightarrow> u64" where
  "fold_m2 blk c m2 =
     (if blk = 0 then m2
      else if blk = 1 then m2 OR push_bit 60 (c AND 0xF)
      else m2 OR push_bit ((blk - 2) * 12) (c AND 0xFFF))"

abbreviation ones_upto :: "u64 list \<Rightarrow> nat \<Rightarrow> nat" where
  "ones_upto W p \<equiv> occ True (bits_of_words W) p"

definition l0_start :: "nat \<Rightarrow> nat" where
  "l0_start sb = (if 2147483647 \<le> sb then 2147483647 else 0)"

definition meta_rep :: "u64 list \<Rightarrow> nat \<Rightarrow> nat \<Rightarrow> u64 \<Rightarrow> u64 \<Rightarrow> bool" where
  "meta_rep W j t m1 m2 \<longleftrightarrow>
     drop_bit 20 m1 = take_bit 44 (of_nat (ones_upto W (4096 * j) - ones_upto W (4096 * l0_start j))) \<and>
     (\<forall>i<7. block_fields m1 m2 ! i =
        (if i < t then of_nat (ones_upto W (4096 * j + 512 * (i + 1)) - ones_upto W (4096 * j)) else 0))"

definition meta_inv :: "u64 list \<Rightarrow> nat \<Rightarrow> nat \<times> nat \<times> nat \<Rightarrow> bitvector \<times> build_locals \<Rightarrow> bool" where
  "meta_inv W k pos s \<longleftrightarrow>
     (let (sb, blk, wd) = pos; (bv, loc) = s in
      superBlockOneCounter loc = of_nat (ones_upto W (64 * k) - ones_upto W (4096 * sb)) \<and>
      L0BlockOneCounter loc = of_nat (ones_upto W (64 * k) - ones_upto W (4096 * l0_start sb)) \<and>
      meta_rep W sb blk (metadata1Builder loc) (metadata2Builder loc) \<and>
      (\<forall>j < sb. meta_rep W j 7 (superBlocks bv ! (2 * j)) (superBlocks bv ! (2 * j + 1))) \<and>
      L0SingleBlockData bv = (if 2147483647 \<le> sb then of_nat (ones_upto W (4096 * 2147483647)) else 0))"

definition cache_ok :: "bool \<Rightarrow> u64 list \<Rightarrow> nat \<Rightarrow> u32 list \<Rightarrow> u64 \<Rightarrow> bool" where
  "cache_ok b W k C th \<longleftrightarrow>
     length C = occ b (bits_of_words W) (64 * k) div 8192 \<and>
     th = of_nat (8192 * (length C + 1)) \<and>
     (\<forall>i < length C. \<exists>v < k. C ! i = of_nat (v div 64) \<and>
        occ b (bits_of_words W) (64 * v) < 8192 * (i + 1) \<and>
        8192 * (i + 1) \<le> occ b (bits_of_words W) (64 * (v + 1)))"

definition cache_inv :: "u64 list \<Rightarrow> nat \<Rightarrow> bitvector \<times> build_locals \<Rightarrow> bool" where
  "cache_inv W k s \<longleftrightarrow>
     (let (bv, loc) = s in
      cache_ok True W k (selectCache_1 bv) (nextSelectCacheThreshold_1 loc) \<and>
      cache_ok False W k (selectCache_0 bv) (nextSelectCacheThreshold_0 loc))"

definition sb0_inv :: "nat \<times> nat \<times> nat \<Rightarrow> bitvector \<times> build_locals \<Rightarrow> bool" where
  "sb0_inv pos s \<longleftrightarrow>
     (let (sb, blk, wd) = pos; (bv, loc) = s in
      (sb = 0 \<longrightarrow> drop_bit 20 (metadata1Builder loc) = 0) \<and>
      (0 < sb \<longrightarrow> drop_bit 20 (superBlocks bv ! 0) = 0))"

definition loop_inv :: "u64 list \<Rightarrow> nat \<Rightarrow> bitvector \<times> build_locals \<Rightarrow> bool" where
  "loop_inv W k s \<longleftrightarrow>
     idx_inv (length W) (pos_at (length W) k) s \<and> cnt_inv W k (fst s) \<and>
     sb0_inv (pos_at (length W) k) s \<and> meta_inv W k (pos_at (length W) k) s \<and>
     (length W \<le> 2 ^ 38 \<longrightarrow> cache_inv W k s)"

definition built_ok :: "u64 list \<Rightarrow> bitvector \<Rightarrow> bool" where
  "built_ok W v \<longleftrightarrow>
     cnt_inv W (length W) v \<and> length (superBlocks v) = 2 * (length W div 64) + 2 \<and>
     drop_bit 20 (superBlocks v ! 0) = 0"

definition built_meta :: "u64 list \<Rightarrow> bitvector \<Rightarrow> bool" where
  "built_meta W v \<longleftrightarrow>
     (\<exists>sb blk. blk < 8 \<and> length W \<le> 64 * sb + 8 * blk \<and> 64 * sb + 8 * blk < length W + 8 \<and>
        (\<forall>j \<le> length W div 64.
           meta_rep W j (if j < sb then 7 else blk) (superBlocks v ! (2 * j)) (superBlocks v ! (2 * j + 1))) \<and>
        L0SingleBlockData v =
          (if 2147483647 \<le> sb then of_nat (ones_upto W (4096 * 2147483647)) else 0))"

definition built_cache :: "u64 list \<Rightarrow> bitvector \<Rightarrow> bool" where
  "built_cache W v \<longleftrightarrow>
     (\<exists>th. cache_ok True W (length W) (selectCache_1 v) th) \<and>
     (\<exists>th. cache_ok False W (length W) (selectCache_0 v) th)"

text \<open>The position \<open>rank\<close> hands to \<open>rank_1\<close>.\<close>

definition clamp :: "string \<Rightarrow> u64 \<Rightarrow> nat" where
  "clamp s i = min (unat i) (64 * (length s div 64 + 1) - 1)"

lemma of_char_int_less: "(of_char c :: int) < 256"
  using pos_mod_bound [of 256 "of_char c :: int"] by (simp only: of_char_mod_256)

lemma char_value_0: "char_value c = 48 \<longleftrightarrow> c = CHR ''0''"
proof -
  have "(of_char c :: int) = 48 \<longleftrightarrow> c = CHR ''0''"
    using of_char_eq_iff [of c "CHR ''0''", where ?'a = int] by simp
  moreover have "(of_char c :: int) < 256" by (rule of_char_int_less)
  ultimately show ?thesis by (auto simp: char_value_def Let_def)
qed

lemma char_value_1: "char_value c = 49 \<longleftrightarrow> c = CHR ''1''"
proof -
  have "(of_char c :: int) = 49 \<longleftrightarrow> c = CHR ''1''"
    using of_char_eq_iff [of c "CHR ''1''", where ?'a = int] by simp
  moreover have "(of_char c :: int) < 256" by (rule of_char_int_less)
  ultimately show ?thesis by (auto simp: char_value_def Let_def)
qed

lemma skipped_iff: "skipped c \<longleftrightarrow> c \<noteq> CHR ''0'' \<and> c \<noteq> CHR ''1''"
proof -
  have "skipped c \<longleftrightarrow> char_value c \<noteq> 48 \<and> char_value c \<noteq> 49"
    unfolding skipped_def by arith
  then show ?thesis by (simp add: char_value_0 char_value_1)
qed

lemma accepted_bit:
  "\<not> skipped c \<Longrightarrow> (word_of_int (char_value c - 48) :: u64) = of_bool (c = CHR ''1'')"
  by (auto simp: skipped_iff char_value_def)

lemma ctor_inv_snoc_in:
  assumes "ctor_inv D inner outer cur vec" and "inner < 63"
  shows "ctor_inv (D @ [b]) (inner + 1) outer (cur OR push_bit inner (of_bool b)) vec"
  using assms unfolding ctor_inv_def
  by (auto simp: bit_simps nth_append less_Suc_eq)

lemma ctor_inv_snoc_out:
  assumes "ctor_inv D 63 outer cur vec" and "outer < length vec"
  shows "ctor_inv (D @ [b]) 0 (outer + 1) 0 (vec[outer := cur OR push_bit 63 (of_bool b)])"
  using assms unfolding ctor_inv_def
  by (auto simp: bit_simps nth_append less_Suc_eq nth_list_update)

lemma ctor_loop_inv:
  assumes "ctor_inv D inner outer cur vec"
    and "length D + length (bits_of cs) < 64 * length vec"
  shows "\<exists>inner' outer' cur' vec'. ctor_loop cs inner outer cur vec = Some (outer', cur', vec') \<and>
           length vec' = length vec \<and> ctor_inv (D @ bits_of cs) inner' outer' cur' vec'"
  using assms
proof (induction cs arbitrary: D inner outer cur vec)
  case Nil
  then show ?case by (auto simp: bits_of_def accepted_def)
next
  case (Cons c cs)
  show ?case
  proof (cases "skipped c")
    case True
    then have "bits_of (c # cs) = bits_of cs"
      by (auto simp: bits_of_def accepted_def skipped_iff)
    with Cons True show ?thesis by simp
  next
    case False
    define b where "b = (c = CHR ''1'')"
    have bits: "bits_of (c # cs) = b # bits_of cs"
      using False by (auto simp: bits_of_def accepted_def skipped_iff b_def)
    have len: "length D = 64 * outer + inner" "inner < 64"
      using Cons.prems(1) by (auto simp: ctor_inv_def)
    have cur': "cur OR push_bit inner (word_of_int (char_value c - 48)) = cur OR push_bit inner (of_bool b)"
      unfolding accepted_bit [OF False] b_def ..
    show ?thesis
    proof (cases "inner < 63")
      case True
      have inv': "ctor_inv (D @ [b]) (inner + 1) outer (cur OR push_bit inner (of_bool b)) vec"
        using Cons.prems(1) True by (rule ctor_inv_snoc_in)
      have "length (D @ [b]) + length (bits_of cs) < 64 * length vec"
        using Cons.prems(2) bits by simp
      from Cons.IH [OF inv' this] show ?thesis
        using False True cur' bits by (simp add: Let_def)
    next
      case nlt: False
      with len have i63: "inner = 63" by simp
      have out: "outer < length vec"
        using Cons.prems(2) bits len i63 by simp
      have inv': "ctor_inv (D @ [b]) 0 (outer + 1) 0 (vec[outer := cur OR push_bit 63 (of_bool b)])"
        using Cons.prems(1) out unfolding i63 by (rule ctor_inv_snoc_out)
      have "length (D @ [b]) + length (bits_of cs) < 64 * length (vec[outer := cur OR push_bit 63 (of_bool b)])"
        using Cons.prems(2) bits by simp
      from Cons.IH [OF inv' this] show ?thesis
        using False i63 cur' bits out by (simp add: Let_def vec_set_def)
    qed
  qed
qed

lemma length_bits_of_le: "length (bits_of s) \<le> length s"
  by (simp add: bits_of_def accepted_def)

text \<open>The constructor never writes out of range, and it packs the accepted bits into the
  words, least significant bit first; the rest of the last word is zero.\<close>

lemma bitvector_of_correct:
  "\<exists>v. bitvector_of s = Some v \<and> length (vector v) = length s div 64 + 1 \<and>
       (\<forall>j<length (vector v). \<forall>i<64.
          bit (vector v ! j) i \<longleftrightarrow> (64 * j + i < length (bits_of s) \<and> bits_of s ! (64 * j + i))) \<and>
       L0SingleBlockData v = 0 \<and> oneCount v = 0 \<and> zeroCount v = 0 \<and> lastOnePos v = 0 \<and>
       lastZeroPos v = 0 \<and> superBlocks v = [] \<and> selectCache_0 v = [] \<and> selectCache_1 v = []"
proof -
  define n where "n = length s div 64 + 1"
  have inv0: "ctor_inv [] 0 0 0 (replicate n 0)"
    by (simp add: ctor_inv_def)
  have "length s < 64 * n" unfolding n_def by arith
  then have room: "length ([] :: bool list) + length (bits_of s) < 64 * length (replicate n (0 :: u64))"
    using length_bits_of_le [of s] by simp
  from ctor_loop_inv [OF inv0 room]
  obtain inner outer cur vec where
    run: "ctor_loop s 0 0 0 (replicate n 0) = Some (outer, cur, vec)"
    and lenv: "length vec = n"
    and inv: "ctor_inv (bits_of s) inner outer cur vec"
    by auto
  from inv have len: "length (bits_of s) = 64 * outer + inner" "inner < 64"
    and curb: "\<And>i. i < 64 \<Longrightarrow> bit cur i \<longleftrightarrow> (i < inner \<and> bits_of s ! (64 * outer + i))"
    and vecb: "\<And>j i. j < outer \<Longrightarrow> i < 64 \<Longrightarrow> bit (vec ! j) i \<longleftrightarrow> bits_of s ! (64 * j + i)"
    and zero: "\<And>j. outer \<le> j \<Longrightarrow> j < length vec \<Longrightarrow> vec ! j = 0"
    by (auto simp: ctor_inv_def)
  have out: "outer < n" using room len by simp
  define v where "v = \<lparr> L0SingleBlockData = 0, oneCount = 0, zeroCount = 0,
                      lastOnePos = 0, lastZeroPos = 0, vector = vec[outer := cur],
                      superBlocks = [], selectCache_0 = [], selectCache_1 = [] \<rparr>"
  have res: "bitvector_of s = Some v"
    unfolding bitvector_of_def n_def [symmetric] run using out lenv by (simp add: vec_set_def v_def)
  have bits: "bit (vector v ! j) i \<longleftrightarrow> (64 * j + i < length (bits_of s) \<and> bits_of s ! (64 * j + i))"
    if "j < length (vector v)" "i < 64" for j i
  proof -
    consider "j < outer" | "j = outer" | "outer < j" by arith
    then show ?thesis
    proof cases
      case 1
      then show ?thesis using that vecb [of j i] len lenv out by (simp add: v_def)
    next
      case 2
      then show ?thesis using that curb [of i] len lenv out by (auto simp: v_def)
    next
      case 3
      then show ?thesis using that zero [of j] len lenv by (simp add: v_def)
    qed
  qed
  show ?thesis
    using res bits lenv by (intro exI [of _ v]) (simp add: v_def n_def)
qed

section \<open>Counting bits\<close>

lemma count_list_map_True: "count_list (map f xs) True = length (filter f xs)"
  by (induction xs) simp_all

lemma count_list_map_False: "count_list (map f xs) False = length (filter (\<lambda>x. \<not> f x) xs)"
  by (induction xs) simp_all

lemma count_list_True_False: "count_list xs True + count_list xs False = length xs"
  by (induction xs) auto

lemma count_list_le_length: "count_list xs b \<le> length xs"
  by (induction xs) auto

lemma length_word_bits [simp]: "length (word_bits w) = 64"
  by (simp add: word_bits_def)

lemma nth_word_bits: "i < 64 \<Longrightarrow> word_bits w ! i = bit w i"
  by (simp add: word_bits_def)

lemma popcount_count: "popcount w = count_list (word_bits w) True"
  by (simp add: popcount_def word_bits_def count_list_map_True)

lemma popcount_le: "popcount w \<le> 64"
  using count_list_le_length [of "word_bits w" True] by (simp add: popcount_count)

lemma zeros_count: "count_list (word_bits w) False = 64 - popcount w"
  using count_list_True_False [of "word_bits w"] by (simp add: popcount_count)

lemma word_bits_NOT: "word_bits (NOT w) = map Not (word_bits w)"
  by (simp add: word_bits_def bit_simps)

lemma count_list_map_Not: "count_list (map Not xs) True = count_list xs False"
  by (induction xs) auto

lemma popcount_NOT: "popcount (NOT w) = 64 - popcount w"
  by (simp add: popcount_count word_bits_NOT count_list_map_Not zeros_count [unfolded popcount_count])

lemma length_bits_of_words [simp]: "length (bits_of_words W) = 64 * length W"
  by (induction W) (simp_all add: bits_of_words_def)

lemma bits_of_words_append: "bits_of_words (xs @ ys) = bits_of_words xs @ bits_of_words ys"
  by (simp add: bits_of_words_def)

lemma take_bits_of_words: "take (64 * k) (bits_of_words W) = bits_of_words (take k W)"
proof (induction W arbitrary: k)
  case Nil
  then show ?case by (simp add: bits_of_words_def)
next
  case (Cons w W)
  show ?case
  proof (cases k)
    case 0
    then show ?thesis by (simp add: bits_of_words_def)
  next
    case (Suc k')
    have "take (64 * Suc k') (word_bits w @ bits_of_words W) = word_bits w @ take (64 * k') (bits_of_words W)"
      by simp
    then show ?thesis using Cons.IH [of k'] Suc by (simp add: bits_of_words_def)
  qed
qed

lemma nth_bits_of_words:
  "p < 64 * length W \<Longrightarrow> bits_of_words W ! p = bit (W ! (p div 64)) (p mod 64)"
proof (induction W arbitrary: p)
  case Nil
  then show ?case by simp
next
  case (Cons w W)
  show ?case
  proof (cases "p < 64")
    case True
    then show ?thesis by (simp add: bits_of_words_def nth_append nth_word_bits)
  next
    case False
    then obtain q where p: "p = 64 + q" using le_Suc_ex [of 64 p] by auto
    have "bits_of_words (w # W) ! p = bits_of_words W ! q"
      by (simp add: bits_of_words_def nth_append p)
    also have "\<dots> = bit (W ! (q div 64)) (q mod 64)"
      using Cons.prems p by (intro Cons.IH) simp
    finally have "bits_of_words (w # W) ! p = bit (W ! (q div 64)) (q mod 64)" .
    moreover have "(64 + q) div 64 = Suc (q div 64)" "(64 + q) mod 64 = q mod 64" by simp_all
    ultimately show ?thesis by (simp add: p)
  qed
qed

lemma occ_0 [simp]: "occ b B 0 = 0"
  by (simp add: occ_def)

lemma occ_Suc: "p < length B \<Longrightarrow> occ b B (Suc p) = occ b B p + (if B ! p = b then 1 else 0)"
  by (simp add: occ_def take_Suc_conv_app_nth)

lemma occ_beyond: "length B \<le> p \<Longrightarrow> occ b B p = occ b B (length B)"
  by (simp add: occ_def)

lemma occ_add: "occ b B (p + q) = occ b B p + occ b (drop p B) q"
proof -
  have "take (p + q) B = take p B @ take q (drop p B)" by (simp add: take_add)
  then show ?thesis by (simp add: occ_def)
qed

lemma occ_le: "occ b B p \<le> p"
  using count_list_le_length [of "take p B" b] by (simp add: occ_def)

lemma occ_mono: "p \<le> q \<Longrightarrow> occ b B p \<le> occ b B q"
  using occ_add [of b B p "q - p"] by simp

lemma occ_diff_le: "p \<le> q \<Longrightarrow> occ b B q \<le> occ b B p + (q - p)"
  using occ_add [of b B p "q - p"] occ_le [of b "drop p B" "q - p"] by simp

lemma occ_True_False: "p \<le> length B \<Longrightarrow> occ True B p + occ False B p = p"
  using count_list_True_False [of "take p B"] by (simp add: occ_def)

lemma occ_take: "p \<le> q \<Longrightarrow> occ b (take q B) p = occ b B p"
  by (simp add: occ_def min_def)

lemma occ_append_left: "p \<le> length xs \<Longrightarrow> occ b (xs @ ys) p = occ b xs p"
  by (simp add: occ_def)

lemma drop_bits_of_words: "drop (64 * k) (bits_of_words W) = bits_of_words (drop k W)"
proof -
  have "bits_of_words W = bits_of_words (take k W) @ bits_of_words (drop k W)"
    by (simp add: bits_of_words_append [symmetric])
  then have "drop (64 * k) (bits_of_words W) =
      drop (64 * k) (bits_of_words (take k W) @ bits_of_words (drop k W))" by simp
  also have "\<dots> = bits_of_words (drop k W)"
    by (cases "k \<le> length W") (simp_all add: min_def bits_of_words_def [of "[]"])
  finally show ?thesis .
qed

lemma popcount_mask: "r \<le> 64 \<Longrightarrow> popcount (w AND mask r) = count_list (take r (word_bits w)) True"
proof -
  assume r: "r \<le> 64"
  have "[0..<64] = [0..<r] @ [r..<64]"
    using r by (metis le_add_diff_inverse upt_add_eq_append zero_le)
  then have "filter (bit (w AND mask r)) [0..<64] = filter (bit (w AND mask r)) [0..<r] @ filter (bit (w AND mask r)) [r..<64]"
    by (metis filter_append)
  moreover have "filter (bit (w AND mask r)) [0..<r] = filter (bit w) [0..<r]"
    using r by (intro filter_cong) (auto simp: bit_simps)
  moreover have "filter (bit (w AND mask r)) [r..<64] = []"
    by (auto simp: filter_empty_conv bit_simps)
  moreover have "take r (word_bits w) = map (bit w) [0..<r]"
    using r by (simp add: word_bits_def take_map)
  ultimately show ?thesis
    by (simp add: popcount_def count_list_map_True)
qed

text \<open>Counting over whole words and inside a word.\<close>

lemma occ_word:
  assumes "k < length W" and "r \<le> 64"
  shows "occ True (bits_of_words W) (64 * k + r) = occ True (bits_of_words W) (64 * k) + popcount (W ! k AND mask r)"
proof -
  have "drop k W = W ! k # drop (Suc k) W"
    using assms(1) by (simp add: Cons_nth_drop_Suc)
  then have "bits_of_words (drop k W) = word_bits (W ! k) @ bits_of_words (drop (Suc k) W)"
    by (simp add: bits_of_words_def)
  then have "drop (64 * k) (bits_of_words W) = word_bits (W ! k) @ bits_of_words (drop (Suc k) W)"
    by (simp only: drop_bits_of_words)
  then have "occ True (drop (64 * k) (bits_of_words W)) r = count_list (take r (word_bits (W ! k))) True"
    using assms(2) by (simp add: occ_def)
  then show ?thesis
    using assms(2) by (simp add: occ_add popcount_mask)
qed

lemma occ_word_full:
  assumes "k < length W"
  shows "occ True (bits_of_words W) (64 * (k + 1)) = occ True (bits_of_words W) (64 * k) + popcount (W ! k)"
proof -
  have "popcount (W ! k AND mask 64) = popcount (W ! k)"
    using popcount_mask [of 64 "W ! k"] by (simp add: popcount_count)
  with occ_word [OF assms, of 64] show ?thesis by (simp add: add.commute)
qed

lemma pos_ok_next: "pos_ok n k pos \<Longrightarrow> k < n \<Longrightarrow> pos_ok n (k + 1) (next_pos n k pos)"
  by (cases pos) (auto simp: pos_ok_def next_pos_def)

lemma word_of_nat_inj64: "a < 2 ^ 64 \<Longrightarrow> b < 2 ^ 64 \<Longrightarrow> (of_nat a :: u64) = of_nat b \<longleftrightarrow> a = b"
  by (simp add: word_of_nat_eq_iff take_bit_nat_eq_self)

lemma last_word_test:
  assumes "k < n" "n < 2 ^ 64"
  shows "((of_nat k :: u64) = of_nat n - 1) = (k + 1 = n)"
proof -
  have "((of_nat k :: u64) = of_nat n - 1) = ((of_nat (k + 1) :: u64) = of_nat n)"
    by (auto simp: algebra_simps)
  also have "\<dots> = (k + 1 = n)"
    using assms by (intro word_of_nat_inj64) auto
  finally show ?thesis .
qed

lemma count_word_eq:
  "count_word k w (bv, loc) =
     (bv\<lparr> oneCount := oneCount bv + of_nat (popcount w),
          zeroCount := zeroCount bv + of_nat (64 - popcount w),
          lastOnePos := (if popcount w > 0
                         then push_bit 6 (of_nat k) + word_of_int (63 - int (clzll w))
                         else lastOnePos bv),
          lastZeroPos := (if popcount w < 64
                          then push_bit 6 (of_nat k) + word_of_int (63 - int (clzll (NOT w)))
                          else lastZeroPos bv) \<rparr>,
      loc\<lparr> wordIndex := (wordIndex loc + 1) mod 256,
           superBlockOneCounter := superBlockOneCounter loc + of_nat (popcount w),
           L0BlockOneCounter := L0BlockOneCounter loc + of_nat (popcount w) \<rparr>)"
  by (simp add: count_word_def Let_def)

lemma cache_word_eq:
  "cache_word (bv, loc) =
     (bv\<lparr> selectCache_1 := (if oneCount bv \<ge> nextSelectCacheThreshold_1 loc
                             then selectCache_1 bv @ [ucast (drop_bit 1 (superblockIndex loc))]
                             else selectCache_1 bv),
          selectCache_0 := (if zeroCount bv \<ge> nextSelectCacheThreshold_0 loc
                             then selectCache_0 bv @ [ucast (drop_bit 1 (superblockIndex loc))]
                             else selectCache_0 bv) \<rparr>,
      loc\<lparr> nextSelectCacheThreshold_1 := (if oneCount bv \<ge> nextSelectCacheThreshold_1 loc
                             then nextSelectCacheThreshold_1 loc + EVERY_OTHER_1_POS
                             else nextSelectCacheThreshold_1 loc),
           nextSelectCacheThreshold_0 := (if zeroCount bv \<ge> nextSelectCacheThreshold_0 loc
                             then nextSelectCacheThreshold_0 loc + EVERY_OTHER_1_POS
                             else nextSelectCacheThreshold_0 loc) \<rparr>)"
  by (simp add: cache_word_def Let_def)

text \<open>Frame conditions: what the first two parts of the loop body leave alone.\<close>

lemma count_cache_frame:
  assumes "cache_word (count_word k w (bv, loc)) = (bv', loc')"
  shows "vector bv' = vector bv" "superBlocks bv' = superBlocks bv"
    "L0SingleBlockData bv' = L0SingleBlockData bv"
    "wordIndex loc' = (wordIndex loc + 1) mod 256" "blockIndex loc' = blockIndex loc"
    "superblockIndex loc' = superblockIndex loc"
    "metadata1Builder loc' = metadata1Builder loc" "metadata2Builder loc' = metadata2Builder loc"
    "superBlockOneCounter loc' = superBlockOneCounter loc + of_nat (popcount w)"
    "L0BlockOneCounter loc' = L0BlockOneCounter loc + of_nat (popcount w)"
    "oneCount bv' = oneCount bv + of_nat (popcount w)"
    "zeroCount bv' = zeroCount bv + of_nat (64 - popcount w)"
  using assms unfolding count_word_eq cache_word_eq by auto

lemma unat_of_nat64: "x < 2 ^ 64 \<Longrightarrow> unat (of_nat x :: u64) = x"
  by (simp add: unat_of_nat)

lemma close_block_push:
  assumes "blockIndex loc = 7"
    and "unat (superblockIndex loc) + 1 < length (superBlocks bv)"
    and "unat (superblockIndex loc + 1) = unat (superblockIndex loc) + 1"
  shows "close_block (bv, loc) =
     Some (bv\<lparr> superBlocks := (superBlocks bv)[unat (superblockIndex loc) := metadata1Builder loc,
                                               unat (superblockIndex loc) + 1 := metadata2Builder loc],
               L0SingleBlockData := (if drop_bit 1 (superblockIndex loc + 2) = SUPERBLOCKS_PER_L0
                                     then oneCount bv else L0SingleBlockData bv) \<rparr>,
           loc\<lparr> wordIndex := 0, superblockIndex := superblockIndex loc + 2,
                L0BlockOneCounter := (if drop_bit 1 (superblockIndex loc + 2) = SUPERBLOCKS_PER_L0
                                      then 0 else L0BlockOneCounter loc),
                metadata1Builder := push_bit 20 (if drop_bit 1 (superblockIndex loc + 2) = SUPERBLOCKS_PER_L0
                                      then 0 else L0BlockOneCounter loc),
                metadata2Builder := 0, superBlockOneCounter := 0, blockIndex := 0 \<rparr>)"
  using assms by (simp add: close_block_def vec_set_def Let_def)

lemma close_block_fold:
  assumes "blockIndex loc \<noteq> 7"
  shows "close_block (bv, loc) =
     Some (bv,
           loc\<lparr> metadata1Builder :=
                  (if blockIndex loc = 0
                   then metadata1Builder loc OR push_bit 8 (superBlockOneCounter loc AND 0xFFF)
                   else if blockIndex loc = 1
                   then metadata1Builder loc OR (drop_bit 4 (superBlockOneCounter loc) AND 0xFF)
                   else metadata1Builder loc),
                metadata2Builder :=
                  (if blockIndex loc = 0 then metadata2Builder loc
                   else if blockIndex loc = 1
                   then metadata2Builder loc OR push_bit 60 (superBlockOneCounter loc AND 0xF)
                   else metadata2Builder loc OR
                        push_bit ((blockIndex loc - 2) * 12) (superBlockOneCounter loc AND 0xFFF)),
                wordIndex := 0, blockIndex := (blockIndex loc + 1) mod 256 \<rparr>)"
  using assms by (simp add: close_block_def Let_def)

lemma build_step_eq:
  assumes "k < length (vector bv)"
  shows "build_step k (bv, loc) =
     (let s = cache_word (count_word k (vector bv ! k) (bv, loc)) in
      if wordIndex (snd s) = 8 \<or> (of_nat k :: u64) = of_nat (length (vector (fst s))) - 1
      then close_block s else Some s)"
  using assms by (simp add: build_step_def vec_at_def)

lemma build_step_idx:
  assumes inv: "idx_inv n pos (bv, loc)" and pos: "pos_ok n k pos" and k: "k < n" and n: "n < 2 ^ 58"
  shows "\<exists>s'. build_step k (bv, loc) = Some s' \<and> idx_inv n (next_pos n k pos) s'"
proof -
  obtain sb blk wd where p: "pos = (sb, blk, wd)" by (cases pos) auto
  obtain bv1 loc1 where s1: "cache_word (count_word k (vector bv ! k) (bv, loc)) = (bv1, loc1)"
    by (cases "cache_word (count_word k (vector bv ! k) (bv, loc))") auto
  note fr = count_cache_frame [OF s1]
  from inv p have len: "length (vector bv) = n" "length (superBlocks bv) = 2 * (n div 64) + 2"
    and ix: "wordIndex loc = wd" "blockIndex loc = blk" "superblockIndex loc = of_nat (2 * sb)"
    by (auto simp: idx_inv_def)
  from pos p k have pk: "blk < 8" "wd < 8" "k = 64 * sb + 8 * blk + wd"
    by (auto simp: pos_ok_def)
  have n64: "n < 2 ^ 64" using n by (rule less_trans) simp
  have closing: "(wordIndex loc1 = 8 \<or> (of_nat k :: u64) = of_nat (length (vector bv1)) - 1)
      = (wd + 1 = 8 \<or> k + 1 = n)"
    using fr(1,4) ix(1) len(1) pk(2) last_word_test [OF k n64] by simp
  have step: "build_step k (bv, loc) =
      (if wd + 1 = 8 \<or> k + 1 = n then close_block (bv1, loc1) else Some (bv1, loc1))"
    using k len(1) closing by (simp add: build_step_eq s1)
  show ?thesis
  proof (cases "wd + 1 = 8 \<or> k + 1 = n")
    case False
    then show ?thesis
      using step fr ix len pk p by (auto simp: idx_inv_def next_pos_def)
  next
    case True
    show ?thesis
    proof (cases "blk = 7")
      case b7: True
      have "sb \<le> n div 64" using pk k by arith
      then have sb: "2 * sb + 1 < 2 * (n div 64) + 2" by simp
      then have sb64: "2 * sb < 2 ^ 64" "2 * sb + 1 < 2 ^ 64" "2 * sb + 2 < 2 ^ 64" using n by simp_all
      have "superblockIndex loc1 = of_nat (2 * sb)" using fr(6) ix(3) by (simp only:)
      then have u: "unat (superblockIndex loc1) = 2 * sb"
        by (simp only: unat_of_nat64 [OF sb64(1)])
      have u1: "unat (superblockIndex loc1 + 1) = unat (superblockIndex loc1) + 1"
      proof -
        have "superblockIndex loc1 + 1 = of_nat (2 * sb + 1)" using fr(6) ix(3) by simp
        then show ?thesis by (simp only: unat_of_nat64 [OF sb64(2)] u)
      qed
      have "close_block (bv1, loc1) = Some (bv1\<lparr> superBlocks := (superBlocks bv1)[unat (superblockIndex loc1) := metadata1Builder loc1,
                                               unat (superblockIndex loc1) + 1 := metadata2Builder loc1],
               L0SingleBlockData := (if drop_bit 1 (superblockIndex loc1 + 2) = SUPERBLOCKS_PER_L0
                                     then oneCount bv1 else L0SingleBlockData bv1) \<rparr>,
           loc1\<lparr> wordIndex := 0, superblockIndex := superblockIndex loc1 + 2,
                L0BlockOneCounter := (if drop_bit 1 (superblockIndex loc1 + 2) = SUPERBLOCKS_PER_L0
                                      then 0 else L0BlockOneCounter loc1),
                metadata1Builder := push_bit 20 (if drop_bit 1 (superblockIndex loc1 + 2) = SUPERBLOCKS_PER_L0
                                      then 0 else L0BlockOneCounter loc1),
                metadata2Builder := 0, superBlockOneCounter := 0, blockIndex := 0 \<rparr>)"
        using fr(5) ix(2) b7 u u1 sb fr(2) len(2) by (intro close_block_push) auto
      then show ?thesis
        using step True b7 fr ix len p by (auto simp: idx_inv_def next_pos_def)
    next
      case False
      then show ?thesis
        using step True fr ix len pk p close_block_fold [of loc1 bv1]
        by (auto simp: idx_inv_def next_pos_def)
    qed
  qed
qed

lemma pos_ok_at: "0 < n \<Longrightarrow> k \<le> n \<Longrightarrow> pos_ok n k (pos_at n k)"
proof (induction k)
  case 0
  then show ?case by (simp add: pos_ok_def)
next
  case (Suc k)
  then show ?case using pos_ok_next [of n k "pos_at n k"] by simp
qed

subsection \<open>The last positions\<close>

lemma takeWhile_shorter: "x \<in> set xs \<Longrightarrow> \<not> P x \<Longrightarrow> length (takeWhile P xs) < length xs"
  by (induction xs) auto

lemma last_index_append:
  "last_index b (xs @ ys) = (if b \<in> set ys then length xs + last_index b ys else last_index b xs)"
proof (cases "b \<in> set ys")
  case True
  then have "takeWhile (\<lambda>x. x \<noteq> b) (rev ys @ rev xs) = takeWhile (\<lambda>x. x \<noteq> b) (rev ys)"
    by (intro takeWhile_append1 [of b]) auto
  moreover have "length (takeWhile (\<lambda>x. x \<noteq> b) (rev ys)) < length ys"
    using True takeWhile_shorter [of b "rev ys" "\<lambda>x. x \<noteq> b"] by auto
  ultimately show ?thesis using True by (simp add: last_index_def)
next
  case False
  have "takeWhile (\<lambda>x. x \<noteq> b) (rev ys @ rev xs) = rev ys @ takeWhile (\<lambda>x. x \<noteq> b) (rev xs)"
  proof (rule takeWhile_append2)
    fix x assume "x \<in> set (rev ys)"
    then have "x \<in> set ys" by simp
    with False show "x \<noteq> b" by blast
  qed
  then show ?thesis using False by (simp add: last_index_def)
qed

lemma last_index_props:
  assumes "b \<in> set B"
  shows "last_index b B < length B" "B ! last_index b B = b"
    "\<And>q. last_index b B < q \<Longrightarrow> q < length B \<Longrightarrow> B ! q \<noteq> b"
proof -
  define t where "t = length (takeWhile (\<lambda>x. x \<noteq> b) (rev B))"
  have t: "t < length B"
    using assms takeWhile_shorter [of b "rev B" "\<lambda>x. x \<noteq> b"] by (auto simp: t_def)
  then show "last_index b B < length B" by (simp add: last_index_def)
  have li: "last_index b B = length B - 1 - t" by (simp add: last_index_def t_def)
  have "rev B ! t = b"
    using nth_length_takeWhile [of "\<lambda>x. x \<noteq> b" "rev B"] t by (simp add: t_def)
  then show "B ! last_index b B = b"
    using t by (simp add: rev_nth li)
  fix q assume q: "last_index b B < q" "q < length B"
  then have "length B - 1 - q < t" using t li by arith
  then have i: "length B - 1 - q < length (takeWhile (\<lambda>x. x \<noteq> b) (rev B))" by (simp add: t_def)
  have "takeWhile (\<lambda>x. x \<noteq> b) (rev B) ! (length B - 1 - q) \<noteq> b"
    using set_takeWhileD [OF nth_mem [OF i]] by blast
  then have "rev B ! (length B - 1 - q) \<noteq> b"
    using takeWhile_nth [OF i] by simp
  then show "B ! q \<noteq> b" using q by (simp add: rev_nth)
qed

lemma last_index_word_True: "last_index True (word_bits w) = 63 - clzll w"
  by (simp add: last_index_def clzll_def word_bits_def rev_map takeWhile_map comp_def)

lemma last_index_word_False: "last_index False (word_bits w) = 63 - clzll (NOT w)"
proof -
  have "takeWhile (\<lambda>i. \<not> bit (NOT w) i) (rev [0..<64]) = takeWhile (bit w) (rev [0..<64])"
    by (rule takeWhile_cong) (auto simp: bit_simps)
  then show ?thesis
    by (simp add: last_index_def clzll_def word_bits_def rev_map takeWhile_map comp_def)
qed

lemma True_in_word_bits: "True \<in> set (word_bits w) \<longleftrightarrow> popcount w > 0"
  using count_list_0_iff [of "word_bits w" True] by (auto simp: popcount_count)

lemma False_in_word_bits: "False \<in> set (word_bits w) \<longleftrightarrow> popcount w < 64"
  using count_list_0_iff [of "word_bits w" False] popcount_le [of w] by (auto simp: zeros_count)

lemma clzll_le: "popcount w > 0 \<Longrightarrow> clzll w \<le> 63"
proof -
  assume "popcount w > 0"
  then have "True \<in> set (rev (word_bits w))" by (simp add: True_in_word_bits)
  then have "length (takeWhile (\<lambda>x. x \<noteq> True) (rev (word_bits w))) < length (rev (word_bits w))"
    using takeWhile_shorter [of True "rev (word_bits w)" "\<lambda>x. x \<noteq> True"] by auto
  then show ?thesis
    by (simp add: clzll_def word_bits_def rev_map takeWhile_map comp_def)
qed

lemma take_next_word:
  "k < length W \<Longrightarrow>
     take (64 * (k + 1)) (bits_of_words W) = take (64 * k) (bits_of_words W) @ word_bits (W ! k)"
proof -
  assume k: "k < length W"
  have "take (64 * (k + 1)) (bits_of_words W) = bits_of_words (take (k + 1) W)"
    by (rule take_bits_of_words)
  also have "take (k + 1) W = take k W @ [W ! k]"
    using k by (simp add: take_Suc_conv_app_nth)
  also have "bits_of_words (take k W @ [W ! k]) = bits_of_words (take k W) @ word_bits (W ! k)"
    by (simp add: bits_of_words_def)
  finally show ?thesis by (simp only: take_bits_of_words)
qed

lemma occ_word_full_False:
  assumes "k < length W"
  shows "occ False (bits_of_words W) (64 * (k + 1)) = occ False (bits_of_words W) (64 * k) + (64 - popcount (W ! k))"
proof -
  have "occ False (bits_of_words W) (64 * (k + 1)) =
      count_list (take (64 * k) (bits_of_words W) @ word_bits (W ! k)) False"
    using assms by (simp only: occ_def take_next_word)
  then show ?thesis by (simp add: occ_def zeros_count)
qed

lemma count_cache_last:
  assumes "cache_word (count_word k w (bv, loc)) = (bv', loc')"
  shows "lastOnePos bv' = (if popcount w > 0
                         then push_bit 6 (of_nat k) + word_of_int (63 - int (clzll w))
                         else lastOnePos bv)"
    "lastZeroPos bv' = (if popcount w < 64
                          then push_bit 6 (of_nat k) + word_of_int (63 - int (clzll (NOT w)))
                          else lastZeroPos bv)"
  using assms unfolding count_word_eq cache_word_eq by auto

lemma close_block_frame:
  assumes "close_block (bv, loc) = Some (bv', loc')"
  shows "vector bv' = vector bv" "oneCount bv' = oneCount bv" "zeroCount bv' = zeroCount bv"
    "lastOnePos bv' = lastOnePos bv" "lastZeroPos bv' = lastZeroPos bv"
    "selectCache_0 bv' = selectCache_0 bv" "selectCache_1 bv' = selectCache_1 bv"
    "nextSelectCacheThreshold_0 loc' = nextSelectCacheThreshold_0 loc"
    "nextSelectCacheThreshold_1 loc' = nextSelectCacheThreshold_1 loc"
  using assms
  by (auto simp: close_block_def Let_def vec_set_def split: if_splits Option.bind_splits)

text \<open>What one iteration does to the counters and the two last positions, whichever
  branch it takes afterwards.\<close>

lemma build_step_counts:
  assumes "build_step k (bv, loc) = Some (bv', loc')" and "k < length (vector bv)"
  shows "vector bv' = vector bv"
    "oneCount bv' = oneCount bv + of_nat (popcount (vector bv ! k))"
    "zeroCount bv' = zeroCount bv + of_nat (64 - popcount (vector bv ! k))"
    "lastOnePos bv' = (if popcount (vector bv ! k) > 0
                       then push_bit 6 (of_nat k) + word_of_int (63 - int (clzll (vector bv ! k)))
                       else lastOnePos bv)"
    "lastZeroPos bv' = (if popcount (vector bv ! k) < 64
                        then push_bit 6 (of_nat k) + word_of_int (63 - int (clzll (NOT (vector bv ! k))))
                        else lastZeroPos bv)"
proof -
  obtain bv1 loc1 where s1: "cache_word (count_word k (vector bv ! k) (bv, loc)) = (bv1, loc1)"
    by (cases "cache_word (count_word k (vector bv ! k) (bv, loc))") auto
  note fr = count_cache_frame [OF s1] count_cache_last [OF s1]
  from assms have "close_block (bv1, loc1) = Some (bv', loc') \<or> (bv1, loc1) = (bv', loc')"
    by (auto simp: build_step_eq s1 Let_def split: if_splits)
  then have eq: "vector bv' = vector bv1 \<and> oneCount bv' = oneCount bv1 \<and> zeroCount bv' = zeroCount bv1 \<and>
      lastOnePos bv' = lastOnePos bv1 \<and> lastZeroPos bv' = lastZeroPos bv1"
    using close_block_frame [of bv1 loc1 bv' loc'] by auto
  show "vector bv' = vector bv" using eq fr by simp
  show "oneCount bv' = oneCount bv + of_nat (popcount (vector bv ! k))" using eq fr by simp
  show "zeroCount bv' = zeroCount bv + of_nat (64 - popcount (vector bv ! k))" using eq fr by simp
  show "lastOnePos bv' = (if popcount (vector bv ! k) > 0
                       then push_bit 6 (of_nat k) + word_of_int (63 - int (clzll (vector bv ! k)))
                       else lastOnePos bv)" using eq fr by simp
  show "lastZeroPos bv' = (if popcount (vector bv ! k) < 64
                        then push_bit 6 (of_nat k) + word_of_int (63 - int (clzll (NOT (vector bv ! k))))
                        else lastZeroPos bv)" using eq fr by simp
qed

lemma last_pos_word:
  assumes "c \<le> 63"
  shows "(push_bit 6 (of_nat k) + word_of_int (63 - int c) :: u64) = of_nat (64 * k + (63 - c))"
proof -
  have e: "(63 :: int) - int c = int (63 - c)" using assms by simp
  have "(word_of_int (int (63 - c)) :: u64) = of_nat (63 - c)" by simp
  then have "(word_of_int (63 - int c) :: u64) = of_nat (63 - c)" by (simp only: e)
  then show ?thesis by (simp add: push_bit_eq_mult)
qed

lemma build_step_cnt:
  assumes inv: "cnt_inv W k bv" and k: "k < length W"
    and step: "build_step k (bv, loc) = Some (bv', loc')"
  shows "cnt_inv W (k + 1) bv'"
proof -
  from inv have W: "vector bv = W" by (simp add: cnt_inv_def)
  note c = build_step_counts [OF step, unfolded W, OF k]
  define w where "w = W ! k"
  define BW where "BW = bits_of_words W"
  have tk: "take (64 * (k + 1)) BW = take (64 * k) BW @ word_bits w"
    unfolding BW_def w_def using k by (rule take_next_word)
  have ltk: "length (take (64 * k) BW) = 64 * k" using k by (simp add: BW_def)
  have one: "oneCount bv' = of_nat (occ True BW (64 * (k + 1)))"
    using c(2) inv occ_word_full [OF k] by (simp add: cnt_inv_def BW_def)
  have zero: "zeroCount bv' = of_nat (occ False BW (64 * (k + 1)))"
    using c(3) inv occ_word_full_False [OF k] by (simp add: cnt_inv_def BW_def)
  have li: "last_index b (take (64 * (k + 1)) BW) =
      (if b \<in> set (word_bits w) then 64 * k + last_index b (word_bits w)
       else last_index b (take (64 * k) BW))" for b
    by (simp only: tk last_index_append ltk)
  have lo: "lastOnePos bv' = of_nat (last_index True (take (64 * (k + 1)) BW))"
  proof (cases "popcount w > 0")
    case True
    have "lastOnePos bv' = push_bit 6 (of_nat k) + word_of_int (63 - int (clzll w))"
      using c(4) True by (simp add: w_def)
    also have "\<dots> = of_nat (64 * k + (63 - clzll w))"
      by (rule last_pos_word) (rule clzll_le [OF True])
    finally show ?thesis
      using True by (simp only: li True_in_word_bits last_index_word_True if_True)
  next
    case False
    then have "lastOnePos bv' = lastOnePos bv" using c(4) by (simp add: w_def)
    also have "\<dots> = of_nat (last_index True (take (64 * k) BW))"
      using inv by (simp add: cnt_inv_def BW_def)
    finally show ?thesis
      using False by (simp only: li True_in_word_bits if_False)
  qed
  have lz: "lastZeroPos bv' = of_nat (last_index False (take (64 * (k + 1)) BW))"
  proof (cases "popcount w < 64")
    case True
    then have pn: "popcount (NOT w) > 0" by (simp add: popcount_NOT)
    have "lastZeroPos bv' = push_bit 6 (of_nat k) + word_of_int (63 - int (clzll (NOT w)))"
      using c(5) True by (simp add: w_def)
    also have "\<dots> = of_nat (64 * k + (63 - clzll (NOT w)))"
      by (rule last_pos_word) (rule clzll_le [OF pn])
    finally show ?thesis
      using True by (simp only: li False_in_word_bits last_index_word_False if_True)
  next
    case False
    then have "lastZeroPos bv' = lastZeroPos bv" using c(5) by (simp add: w_def)
    also have "\<dots> = of_nat (last_index False (take (64 * k) BW))"
      using inv by (simp add: cnt_inv_def BW_def)
    finally show ?thesis
      using False by (simp only: li False_in_word_bits if_False)
  qed
  show ?thesis
    using c(1) W one zero lo lz unfolding cnt_inv_def BW_def by simp
qed

lemma hit_test:
  assumes "sb < 2 ^ 62"
  shows "(drop_bit 1 (of_nat (2 * (sb + 1)) :: u64) = SUPERBLOCKS_PER_L0) = (sb + 1 = 2147483647)"
proof -
  have b: "2 * (sb + 1) < (2 :: nat) ^ 64" using assms by simp
  have "unat (drop_bit 1 (of_nat (2 * (sb + 1)) :: u64)) = sb + 1"
    by (simp only: unat_drop_bit_eq unat_of_nat64 [OF b]) (simp add: drop_bit_eq_div)
  moreover have "unat SUPERBLOCKS_PER_L0 = 2147483647" by (simp add: SUPERBLOCKS_PER_L0_def)
  ultimately show ?thesis by (metis word_unat_eq_iff)
qed

text \<open>One iteration, written out by cases, for a state that satisfies the index invariant.\<close>

lemma build_step_cases:
  assumes inv: "idx_inv n (sb, blk, wd) (bv, loc)" and pos: "pos_ok n k (sb, blk, wd)"
    and k: "k < n" and n: "n < 2 ^ 58"
    and s1: "cache_word (count_word k (vector bv ! k) (bv, loc)) = (bv1, loc1)"
  shows "build_step k (bv, loc) = Some
     (if wd + 1 = 8 \<or> k + 1 = n
      then (if blk = 7
            then (bv1\<lparr> superBlocks := (superBlocks bv)[2 * sb := metadata1Builder loc,
                                                     2 * sb + 1 := metadata2Builder loc],
                       L0SingleBlockData := (if sb + 1 = 2147483647 then oneCount bv1
                                             else L0SingleBlockData bv) \<rparr>,
                  loc1\<lparr> wordIndex := 0, superblockIndex := of_nat (2 * (sb + 1)),
                        L0BlockOneCounter := (if sb + 1 = 2147483647 then 0 else L0BlockOneCounter loc1),
                        metadata1Builder := push_bit 20 (if sb + 1 = 2147483647 then 0
                                                         else L0BlockOneCounter loc1),
                        metadata2Builder := 0, superBlockOneCounter := 0, blockIndex := 0 \<rparr>)
            else (bv1,
                  loc1\<lparr> metadata1Builder :=
                          (if blk = 0
                           then metadata1Builder loc OR push_bit 8 (superBlockOneCounter loc1 AND 0xFFF)
                           else if blk = 1
                           then metadata1Builder loc OR (drop_bit 4 (superBlockOneCounter loc1) AND 0xFF)
                           else metadata1Builder loc),
                        metadata2Builder :=
                          (if blk = 0 then metadata2Builder loc
                           else if blk = 1
                           then metadata2Builder loc OR push_bit 60 (superBlockOneCounter loc1 AND 0xF)
                           else metadata2Builder loc OR
                                push_bit ((blk - 2) * 12) (superBlockOneCounter loc1 AND 0xFFF)),
                        wordIndex := 0, blockIndex := blk + 1 \<rparr>))
      else (bv1, loc1))"
proof -
  note fr = count_cache_frame [OF s1]
  from inv have len: "length (vector bv) = n" "length (superBlocks bv) = 2 * (n div 64) + 2"
    and ix: "wordIndex loc = wd" "blockIndex loc = blk" "superblockIndex loc = of_nat (2 * sb)"
    by (auto simp: idx_inv_def)
  from pos k have pk: "blk < 8" "wd < 8" "k = 64 * sb + 8 * blk + wd"
    by (auto simp: pos_ok_def)
  have n64: "n < 2 ^ 64" using n by (rule less_trans) simp
  have closing: "(wordIndex loc1 = 8 \<or> (of_nat k :: u64) = of_nat (length (vector bv1)) - 1)
      = (wd + 1 = 8 \<or> k + 1 = n)"
    using fr(1,4) ix(1) len(1) pk(2) last_word_test [OF k n64] by simp
  have step: "build_step k (bv, loc) =
      (if wd + 1 = 8 \<or> k + 1 = n then close_block (bv1, loc1) else Some (bv1, loc1))"
    using k len(1) closing by (simp add: build_step_eq s1)
  show ?thesis
  proof (cases "wd + 1 = 8 \<or> k + 1 = n")
    case False
    then show ?thesis using step by simp
  next
    case True
    show ?thesis
    proof (cases "blk = 7")
      case b7: True
      have sble: "sb \<le> n div 64" using pk k by arith
      then have sb: "2 * sb + 1 < 2 * (n div 64) + 2" by simp
      have sb62: "sb < 2 ^ 62" using sble n by simp
      then have sb64: "2 * sb < 2 ^ 64" "2 * sb + 1 < 2 ^ 64" by simp_all
      have sbi: "superblockIndex loc1 = of_nat (2 * sb)" using fr(6) ix(3) by (simp only:)
      then have u: "unat (superblockIndex loc1) = 2 * sb"
        by (simp only: unat_of_nat64 [OF sb64(1)])
      have u1: "unat (superblockIndex loc1 + 1) = unat (superblockIndex loc1) + 1"
      proof -
        have "superblockIndex loc1 + 1 = of_nat (2 * sb + 1)" using sbi by simp
        then show ?thesis by (simp only: unat_of_nat64 [OF sb64(2)] u)
      qed
      note hit = hit_test [OF sb62]
      have next_sbi: "superblockIndex loc1 + 2 = of_nat (2 * (sb + 1))" using sbi by simp
      have cb: "close_block (bv1, loc1) = Some (bv1\<lparr> superBlocks := (superBlocks bv1)[unat (superblockIndex loc1) := metadata1Builder loc1,
                                               unat (superblockIndex loc1) + 1 := metadata2Builder loc1],
               L0SingleBlockData := (if drop_bit 1 (superblockIndex loc1 + 2) = SUPERBLOCKS_PER_L0
                                     then oneCount bv1 else L0SingleBlockData bv1) \<rparr>,
           loc1\<lparr> wordIndex := 0, superblockIndex := superblockIndex loc1 + 2,
                L0BlockOneCounter := (if drop_bit 1 (superblockIndex loc1 + 2) = SUPERBLOCKS_PER_L0
                                      then 0 else L0BlockOneCounter loc1),
                metadata1Builder := push_bit 20 (if drop_bit 1 (superblockIndex loc1 + 2) = SUPERBLOCKS_PER_L0
                                      then 0 else L0BlockOneCounter loc1),
                metadata2Builder := 0, superBlockOneCounter := 0, blockIndex := 0 \<rparr>)"
        using fr(5) ix(2) b7 u u1 sb fr(2) len(2) by (intro close_block_push) auto
      have "build_step k (bv, loc) = close_block (bv1, loc1)" using step True by simp
      also note cb
      finally show ?thesis
        unfolding next_sbi hit u fr(2,3,7,8) using True b7 by simp
    next
      case False
      have "(blk + 1) mod 256 = blk + 1" using pk by simp
      then show ?thesis
        using step True False fr(5,7,8) ix(2) close_block_fold [of loc1 bv1] by simp
    qed
  qed
qed

text \<open>Induction over the iterations of the loop.\<close>

lemma build_loop_Suc: "build_loop (Suc k) s = Option.bind (build_loop k s) (build_step k)"
  by (simp add: build_loop_def)

lemma build_loop_induct:
  assumes base: "P 0 s0"
    and step: "\<And>k s. k < n \<Longrightarrow> P k s \<Longrightarrow> \<exists>s'. build_step k s = Some s' \<and> P (k + 1) s'"
  shows "k \<le> n \<Longrightarrow> \<exists>s. build_loop k s0 = Some s \<and> P k s"
proof (induction k)
  case 0
  then show ?case using base by (simp add: build_loop_def)
next
  case (Suc k)
  then obtain s where s: "build_loop k s0 = Some s" "P k s" by auto
  from step [OF _ s(2)] Suc.prems obtain s' where "build_step k s = Some s'" "P (k + 1) s'" by auto
  then show ?case using s by (simp add: build_loop_Suc)
qed

section \<open>The metadata encoding\<close>

lemma and_fff: "(w :: u64) AND 0xFFF = take_bit 12 w"
  by (simp add: take_bit_eq_mask mask_eq_exp_minus_1)

lemma and_ff: "(w :: u64) AND 0xFF = take_bit 8 w"
  by (simp add: take_bit_eq_mask mask_eq_exp_minus_1)

lemma and_f: "(w :: u64) AND 0xF = take_bit 4 w"
  by (simp add: take_bit_eq_mask mask_eq_exp_minus_1)

lemmas and_masks = and_fff and_ff and_f

lemma fold_keeps_base: "drop_bit 20 (fold_m1 blk c m1) = drop_bit 20 m1"
  unfolding fold_m1_def and_masks
  by (rule bit_word_eqI) (auto simp: bit_simps)

lemma fields_fold_0:
  "block_fields (fold_m1 0 c m1) (fold_m2 0 c m2) =
     (block_fields m1 m2)[0 := block_fields m1 m2 ! 0 OR (c AND 0xFFF)]"
  unfolding fold_m1_def fold_m2_def block_fields_def and_masks
  by (simp; (intro conjI)?; rule bit_word_eqI; auto simp: bit_simps)

lemma fields_fold_1:
  "block_fields (fold_m1 1 c m1) (fold_m2 1 c m2) =
     (block_fields m1 m2)[1 := block_fields m1 m2 ! 1 OR (c AND 0xFFF)]"
  unfolding fold_m1_def fold_m2_def block_fields_def and_masks
  by (simp; (intro conjI)?; rule bit_word_eqI; auto simp: bit_simps)

lemma fields_fold_2:
  "block_fields (fold_m1 2 c m1) (fold_m2 2 c m2) =
     (block_fields m1 m2)[2 := block_fields m1 m2 ! 2 OR (c AND 0xFFF)]"
  unfolding fold_m1_def fold_m2_def block_fields_def and_masks
  by (simp; (intro conjI)?; rule bit_word_eqI; auto simp: bit_simps)

lemma fields_fold_3:
  "block_fields (fold_m1 3 c m1) (fold_m2 3 c m2) =
     (block_fields m1 m2)[3 := block_fields m1 m2 ! 3 OR (c AND 0xFFF)]"
  unfolding fold_m1_def fold_m2_def block_fields_def and_masks
  by (simp; (intro conjI)?; rule bit_word_eqI; auto simp: bit_simps)

lemma fields_fold_4:
  "block_fields (fold_m1 4 c m1) (fold_m2 4 c m2) =
     (block_fields m1 m2)[4 := block_fields m1 m2 ! 4 OR (c AND 0xFFF)]"
  unfolding fold_m1_def fold_m2_def block_fields_def and_masks
  by (simp; (intro conjI)?; rule bit_word_eqI; auto simp: bit_simps)

lemma fields_fold_5:
  "block_fields (fold_m1 5 c m1) (fold_m2 5 c m2) =
     (block_fields m1 m2)[5 := block_fields m1 m2 ! 5 OR (c AND 0xFFF)]"
  unfolding fold_m1_def fold_m2_def block_fields_def and_masks
  by (simp; (intro conjI)?; rule bit_word_eqI; auto simp: bit_simps)

lemma fields_fold_6:
  "block_fields (fold_m1 6 c m1) (fold_m2 6 c m2) =
     (block_fields m1 m2)[6 := block_fields m1 m2 ! 6 OR (c AND 0xFFF)]"
  unfolding fold_m1_def fold_m2_def block_fields_def and_masks
  by (simp; (intro conjI)?; rule bit_word_eqI; auto simp: bit_simps)

lemma fields_fold:
  assumes "blk < 7"
  shows "block_fields (fold_m1 blk c m1) (fold_m2 blk c m2) =
     (block_fields m1 m2)[blk := block_fields m1 m2 ! blk OR (c AND 0xFFF)]"
proof -
  from assms consider "blk = 0" | "blk = 1" | "blk = 2" | "blk = 3" | "blk = 4" | "blk = 5" | "blk = 6"
    by arith
  then show ?thesis
    by cases (simp_all only: fields_fold_0 fields_fold_1 fields_fold_2 fields_fold_3
        fields_fold_4 fields_fold_5 fields_fold_6)
qed

lemma replicate_7: "replicate 7 x = [x, x, x, x, x, x, x]"
  by (simp add: numeral_eq_Suc)

lemma fields_fresh: "block_fields (push_bit 20 x) 0 = replicate 7 0"
  unfolding block_fields_def and_masks replicate_7
  by (simp; (intro conjI)?; rule bit_word_eqI; auto simp: bit_simps)

lemma base_fresh: "unat x < 2 ^ 44 \<Longrightarrow> drop_bit 20 (push_bit 20 x :: u64) = x"
proof -
  assume "unat x < 2 ^ 44"
  then have "take_bit 44 x = x"
    by (simp add: word_unat_eq_iff unsigned_take_bit_eq take_bit_nat_eq_self)
  moreover have "drop_bit 20 (push_bit 20 x :: u64) = take_bit 44 x"
    by (rule bit_word_eqI) (auto simp: bit_simps)
  ultimately show ?thesis by simp
qed

lemma length_block_fields [simp]: "length (block_fields m1 m2) = 7"
  by (simp add: block_fields_def)

lemma ones_trunc: "64 * length W \<le> p \<Longrightarrow> ones_upto W p = ones_upto W (64 * length W)"
  using occ_beyond [of "bits_of_words W" p True] by simp

lemma ones_trunc2:
  "64 * length W \<le> p \<Longrightarrow> 64 * length W \<le> q \<Longrightarrow> ones_upto W p = ones_upto W q"
  using ones_trunc [of W p] ones_trunc [of W q] by simp

text \<open>At the end of a block the bits counted so far are the bits up to the end of the
  block, also when the block is cut short by the end of the word array.\<close>

lemma ones_block_end:
  assumes "k < length W" and "64 * (k + 1) \<le> e" and "64 * (k + 1) = e \<or> k + 1 = length W"
  shows "ones_upto W e = ones_upto W (64 * (k + 1))"
  using assms ones_trunc2 [of W e "64 * (k + 1)"] by auto

lemma fold_m1_eq:
  "blk \<noteq> 7 \<Longrightarrow> (if blk = 0 then m1 OR push_bit 8 (c AND 0xFFF)
      else if blk = 1 then m1 OR (drop_bit 4 c AND 0xFF) else m1) = fold_m1 blk c m1"
  by (simp add: fold_m1_def)

lemma fold_m2_eq:
  "blk \<noteq> 7 \<Longrightarrow> (if blk = 0 then m2
      else if blk = 1 then m2 OR push_bit 60 (c AND 0xF)
      else m2 OR push_bit ((blk - 2) * 12) (c AND 0xFFF)) = fold_m2 blk c m2"
  by (simp add: fold_m2_def)

lemma small_and_fff:
  assumes "x < 4096"
  shows "(of_nat x :: u64) AND 0xFFF = of_nat x"
proof -
  have "unat (of_nat x :: u64) = x" using assms by (simp add: unat_of_nat)
  then have "unat (take_bit 12 (of_nat x :: u64)) = unat (of_nat x :: u64)"
    using assms by (simp add: unsigned_take_bit_eq take_bit_nat_eq_self)
  then show ?thesis by (simp only: and_fff word_unat_eq_iff)
qed

lemma meta_rep_fold:
  assumes rep: "meta_rep W sb blk m1 m2" and blk: "blk < 7"
    and c: "c = of_nat (ones_upto W (4096 * sb + 512 * (blk + 1)) - ones_upto W (4096 * sb))"
  shows "meta_rep W sb (blk + 1) (fold_m1 blk c m1) (fold_m2 blk c m2)"
proof -
  let ?x = "ones_upto W (4096 * sb + 512 * (blk + 1)) - ones_upto W (4096 * sb)"
  have "ones_upto W (4096 * sb + 512 * (blk + 1)) \<le> ones_upto W (4096 * sb) + 512 * (blk + 1)"
    using occ_diff_le [of "4096 * sb" "4096 * sb + 512 * (blk + 1)" True "bits_of_words W"] by simp
  then have "?x < 4096" using blk by simp
  then have cm: "c AND 0xFFF = c" unfolding c by (rule small_and_fff)
  from rep have f0: "block_fields m1 m2 ! blk = 0" using blk by (simp add: meta_rep_def)
  have fl: "block_fields (fold_m1 blk c m1) (fold_m2 blk c m2) = (block_fields m1 m2)[blk := c]"
    using fields_fold [OF blk, of c m1 m2] by (simp add: f0 cm)
  show ?thesis
    unfolding meta_rep_def fl fold_keeps_base
    using rep blk c by (auto simp: meta_rep_def nth_list_update less_Suc_eq)
qed

lemma drop_push_20: "drop_bit 20 (push_bit 20 x :: u64) = take_bit 44 x"
  by (rule bit_word_eqI) (auto simp: bit_simps)

lemma meta_rep_fresh:
  assumes "x = ones_upto W (4096 * j) - ones_upto W (4096 * l0_start j)"
  shows "meta_rep W j 0 (push_bit 20 (of_nat x)) 0"
  unfolding meta_rep_def fields_fresh drop_push_20 using assms by simp

lemma l0_start_le: "l0_start sb \<le> sb"
  by (simp add: l0_start_def)

lemma l0_start_Suc: "sb + 1 \<noteq> 2147483647 \<Longrightarrow> l0_start (sb + 1) = l0_start sb"
  by (auto simp: l0_start_def)

lemma l0_start_hit: "sb + 1 = 2147483647 \<Longrightarrow> l0_start (sb + 1) = sb + 1"
  by (auto simp: l0_start_def)

lemma build_step_meta:
  assumes idx: "idx_inv n (sb, blk, wd) (bv, loc)" and pos: "pos_ok n k (sb, blk, wd)"
    and k: "k < n" and n58: "n < 2 ^ 58" and W: "length W = n"
    and cnt: "cnt_inv W k bv" and meta: "meta_inv W k (sb, blk, wd) (bv, loc)"
    and step: "build_step k (bv, loc) = Some (bv', loc')"
  shows "meta_inv W (k + 1) (next_pos n k (sb, blk, wd)) (bv', loc')"
proof -
  obtain bv1 loc1 where s1: "cache_word (count_word k (vector bv ! k) (bv, loc)) = (bv1, loc1)"
    by (cases "cache_word (count_word k (vector bv ! k) (bv, loc))") auto
  note fr = count_cache_frame [OF s1]
  note st = build_step_cases [OF idx pos k n58 s1]
  from cnt have vW: "vector bv = W" and oc: "oneCount bv = of_nat (ones_upto W (64 * k))"
    by (simp_all add: cnt_inv_def)
  from pos k have pk: "blk < 8" "wd < 8" "k = 64 * sb + 8 * blk + wd"
    by (auto simp: pos_ok_def)
  from idx have lenS: "length (superBlocks bv) = 2 * (n div 64) + 2"
    by (simp add: idx_inv_def)
  define pc where "pc = popcount (W ! k)"
  define A where "A = ones_upto W (64 * k)"
  define A' where "A' = ones_upto W (64 * (k + 1))"
  define X where "X = ones_upto W (4096 * sb)"
  define L where "L = ones_upto W (4096 * l0_start sb)"
  have kW: "k < length W" using k W by simp
  have A': "A' = A + pc" unfolding A'_def A_def pc_def using kW by (rule occ_word_full)
  have XA: "X \<le> A" unfolding X_def A_def using pk by (intro occ_mono) simp
  have LX: "L \<le> X" unfolding X_def L_def using l0_start_le [of sb] by (intro occ_mono) simp
  from meta have m: "superBlockOneCounter loc = of_nat (A - X)" "L0BlockOneCounter loc = of_nat (A - L)"
    and rep: "meta_rep W sb blk (metadata1Builder loc) (metadata2Builder loc)"
    and old: "\<And>j. j < sb \<Longrightarrow> meta_rep W j 7 (superBlocks bv ! (2 * j)) (superBlocks bv ! (2 * j + 1))"
    and l0d: "L0SingleBlockData bv = (if 2147483647 \<le> sb then of_nat (ones_upto W (4096 * 2147483647)) else 0)"
    by (auto simp: meta_inv_def A_def X_def L_def)
  have sbc1: "superBlockOneCounter loc1 = of_nat (A' - X)"
  proof -
    have "superBlockOneCounter loc1 = of_nat (A - X) + of_nat pc"
      using fr(9) m(1) by (simp only: vW pc_def)
    also have "\<dots> = of_nat ((A - X) + pc)" by simp
    also have "(A - X) + pc = A' - X" using XA A' by simp
    finally show ?thesis .
  qed
  have l0c1: "L0BlockOneCounter loc1 = of_nat (A' - L)"
  proof -
    have "L0BlockOneCounter loc1 = of_nat (A - L) + of_nat pc"
      using fr(10) m(2) by (simp only: vW pc_def)
    also have "\<dots> = of_nat ((A - L) + pc)" by simp
    also have "(A - L) + pc = A' - L" using XA LX A' by simp
    finally show ?thesis .
  qed
  have oc1: "oneCount bv1 = of_nat A'"
  proof -
    have "oneCount bv1 = of_nat A + of_nat pc" using fr(11) oc by (simp only: vW pc_def A_def)
    then show ?thesis by (simp add: A')
  qed
  show ?thesis
  proof (cases "wd + 1 = 8 \<or> k + 1 = n")
    case False
    then have res: "(bv', loc') = (bv1, loc1)" using st step by simp
    have np: "next_pos n k (sb, blk, wd) = (sb, blk, wd + 1)"
      using False by (simp add: next_pos_def)
    show ?thesis
      unfolding np using res sbc1 l0c1 rep old l0d fr(2,3,7,8)
      by (simp add: meta_inv_def A'_def X_def L_def)
  next
    case True
    show ?thesis
    proof (cases "blk = 7")
      case b7: False
      then have blk: "blk < 7" using pk by simp
      have np: "next_pos n k (sb, blk, wd) = (sb, blk + 1, 0)"
        using True b7 by (simp add: next_pos_def)
      have res: "bv' = bv1"
        "loc' = loc1\<lparr> metadata1Builder := fold_m1 blk (superBlockOneCounter loc1) (metadata1Builder loc),
                      metadata2Builder := fold_m2 blk (superBlockOneCounter loc1) (metadata2Builder loc),
                      wordIndex := 0, blockIndex := blk + 1 \<rparr>"
        using st step True b7 by (simp_all add: fold_m1_def fold_m2_def)
      have e: "ones_upto W (4096 * sb + 512 * (blk + 1)) = A'"
        unfolding A'_def using kW True pk W by (intro ones_block_end) auto
      have "meta_rep W sb (blk + 1) (fold_m1 blk (superBlockOneCounter loc1) (metadata1Builder loc))
            (fold_m2 blk (superBlockOneCounter loc1) (metadata2Builder loc))"
        using rep blk by (rule meta_rep_fold) (simp only: sbc1 e X_def)
      then show ?thesis
        unfolding np res using sbc1 l0c1 old l0d fr(2,3)
        by (simp add: meta_inv_def A'_def X_def L_def)
    next
      case b7: True
      have np: "next_pos n k (sb, blk, wd) = (sb + 1, 0, 0)"
        using True b7 by (simp add: next_pos_def)
      define l0c' where "l0c' = (if sb + 1 = 2147483647 then 0 else L0BlockOneCounter loc1)"
      have res: "bv' = bv1\<lparr> superBlocks := (superBlocks bv)[2 * sb := metadata1Builder loc,
                                                     2 * sb + 1 := metadata2Builder loc],
                       L0SingleBlockData := (if sb + 1 = 2147483647 then oneCount bv1
                                             else L0SingleBlockData bv) \<rparr>"
        "loc' = loc1\<lparr> wordIndex := 0, superblockIndex := of_nat (2 * (sb + 1)),
                        L0BlockOneCounter := l0c',
                        metadata1Builder := push_bit 20 l0c',
                        metadata2Builder := 0, superBlockOneCounter := 0, blockIndex := 0 \<rparr>"
        using st step True b7 by (simp_all add: l0c'_def)
      have sble: "sb \<le> n div 64" using pk k by arith
      then have inb: "2 * sb + 1 < length (superBlocks bv)" using lenS by simp
      define E where "E = ones_upto W (4096 * (sb + 1))"
      have e: "E = A'"
        unfolding A'_def E_def using kW True pk W b7 by (intro ones_block_end) auto
      define L' where "L' = ones_upto W (4096 * l0_start (sb + 1))"
      have l0c'_val: "l0c' = of_nat (E - L')"
      proof (cases "sb + 1 = 2147483647")
        case True
        have "L' = E" unfolding L'_def E_def l0_start_hit [OF True] ..
        moreover have "l0c' = 0" unfolding l0c'_def using True by (rule if_P)
        ultimately show ?thesis by simp
      next
        case False
        have "L' = L" unfolding L'_def L_def l0_start_Suc [OF False] ..
        moreover have "l0c' = L0BlockOneCounter loc1" unfolding l0c'_def using False by (rule if_not_P)
        ultimately show ?thesis by (simp only: l0c1 e)
      qed
      have fresh: "meta_rep W (sb + 1) 0 (push_bit 20 l0c') 0"
        unfolding l0c'_val by (intro meta_rep_fresh) (simp add: E_def L'_def)
      have done_sb: "meta_rep W j 7 ((superBlocks bv)[2 * sb := metadata1Builder loc,
                                                     2 * sb + 1 := metadata2Builder loc] ! (2 * j))
                     ((superBlocks bv)[2 * sb := metadata1Builder loc,
                                                     2 * sb + 1 := metadata2Builder loc] ! (2 * j + 1))"
        if "j < sb + 1" for j
      proof (cases "j = sb")
        case True
        then show ?thesis using rep b7 inb by simp
      next
        case False
        with that have "j < sb" by simp
        then show ?thesis using old [of j] by simp
      qed
      have l0d': "(if sb + 1 = 2147483647 then oneCount bv1 else L0SingleBlockData bv) =
          (if 2147483647 \<le> sb + 1 then of_nat (ones_upto W (4096 * 2147483647)) else 0)"
        using l0d oc1 e by (auto simp: E_def)
      have z: "A' - E = 0" using e by simp
      show ?thesis
        using fresh done_sb l0d' l0c'_val z e
        unfolding np res meta_inv_def A'_def E_def L'_def
        by simp
    qed
  qed
qed

lemma word_of_nat_le64: "a < 2 ^ 64 \<Longrightarrow> b < 2 ^ 64 \<Longrightarrow> (of_nat a :: u64) \<le> of_nat b \<longleftrightarrow> a \<le> b"
  by (simp add: of_nat_word_less_eq_iff take_bit_nat_eq_self)

lemma word_of_nat_less64: "a < 2 ^ 64 \<Longrightarrow> b < 2 ^ 64 \<Longrightarrow> (of_nat a :: u64) < of_nat b \<longleftrightarrow> a < b"
  by (simp add: of_nat_word_less_iff take_bit_nat_eq_self)

lemma cache_entry:
  assumes "sb < 2 ^ 63"
  shows "(ucast (drop_bit 1 (of_nat (2 * sb) :: u64)) :: u32) = of_nat sb"
proof -
  have b: "2 * sb < (2 :: nat) ^ 64" using assms by simp
  have "unat (drop_bit 1 (of_nat (2 * sb) :: u64)) = sb"
    by (simp only: unat_drop_bit_eq unat_of_nat64 [OF b]) (simp add: drop_bit_eq_div)
  moreover have "unat (of_nat sb :: u64) = sb"
    using assms by (intro unat_of_nat64) simp
  ultimately have "drop_bit 1 (of_nat (2 * sb) :: u64) = of_nat sb"
    by (simp only: word_unat_eq_iff)
  then show ?thesis by (simp add: unsigned_of_nat take_bit_nat_eq_self assms less_trans [OF assms])
qed

lemma cache_ok_step:
  assumes ok: "cache_ok b W k C th" and k: "k < length W" and n: "length W \<le> 2 ^ 38"
    and cnt: "cnt' = of_nat (occ b (bits_of_words W) (64 * (k + 1)))"
    and sbw: "(sbw :: u64) = of_nat (2 * (k div 64))"
  shows "cache_ok b W (k + 1) (if cnt' \<ge> th then C @ [ucast (drop_bit 1 sbw)] else C)
           (if cnt' \<ge> th then th + EVERY_OTHER_1_POS else th)"
proof -
  define a0 where "a0 = occ b (bits_of_words W) (64 * k)"
  define a where "a = occ b (bits_of_words W) (64 * (k + 1))"
  from ok have len: "length C = a0 div 8192" and th: "th = of_nat (8192 * (length C + 1))"
    and ent: "\<And>i. i < length C \<Longrightarrow> \<exists>v < k. C ! i = of_nat (v div 64) \<and>
        occ b (bits_of_words W) (64 * v) < 8192 * (i + 1) \<and>
        8192 * (i + 1) \<le> occ b (bits_of_words W) (64 * (v + 1))"
    by (auto simp: cache_ok_def a0_def)
  have a_lo: "a0 \<le> a" unfolding a0_def a_def by (intro occ_mono) simp
  have a_hi: "a \<le> a0 + 64"
    unfolding a0_def a_def using occ_diff_le [of "64 * k" "64 * (k + 1)" b "bits_of_words W"] by simp
  have a_le: "a \<le> 64 * (k + 1)" unfolding a_def by (rule occ_le)
  have k38: "k + 1 \<le> 2 ^ 38" using k n by simp
  then have a64: "a < 2 ^ 64" using a_le by simp
  have "a0 \<le> 2 ^ 44" using a_lo a_le k38 by simp
  moreover have "8192 * (a0 div 8192) \<le> a0" by simp
  ultimately have t64: "8192 * (length C + 1) < (2 :: nat) ^ 64" unfolding len by simp
  have test: "(cnt' \<ge> th) = (8192 * (length C + 1) \<le> a)"
    unfolding cnt th a_def [symmetric] using t64 a64 by (rule word_of_nat_le64)
  show ?thesis
  proof (cases "8192 * (length C + 1) \<le> a")
    case False
    then have "a div 8192 = length C" using len a_lo by simp
    moreover have "\<exists>v < k + 1. C ! i = of_nat (v div 64) \<and>
        occ b (bits_of_words W) (64 * v) < 8192 * (i + 1) \<and>
        8192 * (i + 1) \<le> occ b (bits_of_words W) (64 * (v + 1))" if "i < length C" for i
    proof -
      from ent [OF that] obtain v where v: "v < k" "C ! i = of_nat (v div 64)"
        "occ b (bits_of_words W) (64 * v) < 8192 * (i + 1)"
        "8192 * (i + 1) \<le> occ b (bits_of_words W) (64 * (v + 1))" by auto
      then have "v < k + 1" by simp
      with v show ?thesis by blast
    qed
    ultimately show ?thesis
      using False th unfolding test cache_ok_def a_def by simp
  next
    case True
    have l': "a div 8192 = length C + 1" using True len a_hi by simp
    have sb63: "k div 64 < 2 ^ 63" using k38 by simp
    have e: "(ucast (drop_bit 1 sbw) :: u32) = of_nat (k div 64)"
      unfolding sbw by (rule cache_entry [OF sb63])
    have th': "th + EVERY_OTHER_1_POS = of_nat (8192 * (length C + 1 + 1))"
      unfolding th by (simp add: EVERY_OTHER_1_POS_def)
    have new: "\<exists>v < k + 1. (C @ [of_nat (k div 64)]) ! i = of_nat (v div 64) \<and>
        occ b (bits_of_words W) (64 * v) < 8192 * (i + 1) \<and>
        8192 * (i + 1) \<le> occ b (bits_of_words W) (64 * (v + 1))" if "i < length C + 1" for i
    proof (cases "i = length C")
      case True
      have "a0 < 8192 * (length C + 1)" using len by simp
      then show ?thesis
        using True \<open>8192 * (length C + 1) \<le> a\<close> unfolding a0_def a_def
        by (intro exI [of _ k]) simp
    next
      case False
      with that have i: "i < length C" by simp
      from ent [OF i] obtain v where "v < k" "C ! i = of_nat (v div 64)"
        "occ b (bits_of_words W) (64 * v) < 8192 * (i + 1)"
        "8192 * (i + 1) \<le> occ b (bits_of_words W) (64 * (v + 1))" by auto
      then show ?thesis using i by (intro exI [of _ v]) (simp add: nth_append)
    qed
    show ?thesis
      using True l' new th' unfolding test cache_ok_def e a_def by simp
  qed
qed

lemma build_step_caches:
  assumes "build_step k (bv, loc) = Some (bv', loc')" and "k < length (vector bv)"
  shows "selectCache_1 bv' =
      (if oneCount bv + of_nat (popcount (vector bv ! k)) \<ge> nextSelectCacheThreshold_1 loc
       then selectCache_1 bv @ [ucast (drop_bit 1 (superblockIndex loc))] else selectCache_1 bv)"
    "nextSelectCacheThreshold_1 loc' =
      (if oneCount bv + of_nat (popcount (vector bv ! k)) \<ge> nextSelectCacheThreshold_1 loc
       then nextSelectCacheThreshold_1 loc + EVERY_OTHER_1_POS else nextSelectCacheThreshold_1 loc)"
    "selectCache_0 bv' =
      (if zeroCount bv + of_nat (64 - popcount (vector bv ! k)) \<ge> nextSelectCacheThreshold_0 loc
       then selectCache_0 bv @ [ucast (drop_bit 1 (superblockIndex loc))] else selectCache_0 bv)"
    "nextSelectCacheThreshold_0 loc' =
      (if zeroCount bv + of_nat (64 - popcount (vector bv ! k)) \<ge> nextSelectCacheThreshold_0 loc
       then nextSelectCacheThreshold_0 loc + EVERY_OTHER_1_POS else nextSelectCacheThreshold_0 loc)"
proof -
  obtain bv1 loc1 where s1: "cache_word (count_word k (vector bv ! k) (bv, loc)) = (bv1, loc1)"
    by (cases "cache_word (count_word k (vector bv ! k) (bv, loc))") auto
  have c: "selectCache_1 bv1 =
      (if oneCount bv + of_nat (popcount (vector bv ! k)) \<ge> nextSelectCacheThreshold_1 loc
       then selectCache_1 bv @ [ucast (drop_bit 1 (superblockIndex loc))] else selectCache_1 bv)"
    "nextSelectCacheThreshold_1 loc1 =
      (if oneCount bv + of_nat (popcount (vector bv ! k)) \<ge> nextSelectCacheThreshold_1 loc
       then nextSelectCacheThreshold_1 loc + EVERY_OTHER_1_POS else nextSelectCacheThreshold_1 loc)"
    "selectCache_0 bv1 =
      (if zeroCount bv + of_nat (64 - popcount (vector bv ! k)) \<ge> nextSelectCacheThreshold_0 loc
       then selectCache_0 bv @ [ucast (drop_bit 1 (superblockIndex loc))] else selectCache_0 bv)"
    "nextSelectCacheThreshold_0 loc1 =
      (if zeroCount bv + of_nat (64 - popcount (vector bv ! k)) \<ge> nextSelectCacheThreshold_0 loc
       then nextSelectCacheThreshold_0 loc + EVERY_OTHER_1_POS else nextSelectCacheThreshold_0 loc)"
    using s1 unfolding count_word_eq cache_word_eq by auto
  from assms have "close_block (bv1, loc1) = Some (bv', loc') \<or> (bv1, loc1) = (bv', loc')"
    by (auto simp: build_step_eq s1 Let_def split: if_splits)
  then have eq: "selectCache_1 bv' = selectCache_1 bv1 \<and> selectCache_0 bv' = selectCache_0 bv1 \<and>
      nextSelectCacheThreshold_1 loc' = nextSelectCacheThreshold_1 loc1 \<and>
      nextSelectCacheThreshold_0 loc' = nextSelectCacheThreshold_0 loc1"
    using close_block_frame [of bv1 loc1 bv' loc'] by auto
  show "selectCache_1 bv' =
      (if oneCount bv + of_nat (popcount (vector bv ! k)) \<ge> nextSelectCacheThreshold_1 loc
       then selectCache_1 bv @ [ucast (drop_bit 1 (superblockIndex loc))] else selectCache_1 bv)"
    using eq c(1) by simp
  show "nextSelectCacheThreshold_1 loc' =
      (if oneCount bv + of_nat (popcount (vector bv ! k)) \<ge> nextSelectCacheThreshold_1 loc
       then nextSelectCacheThreshold_1 loc + EVERY_OTHER_1_POS else nextSelectCacheThreshold_1 loc)"
    using eq c(2) by simp
  show "selectCache_0 bv' =
      (if zeroCount bv + of_nat (64 - popcount (vector bv ! k)) \<ge> nextSelectCacheThreshold_0 loc
       then selectCache_0 bv @ [ucast (drop_bit 1 (superblockIndex loc))] else selectCache_0 bv)"
    using eq c(3) by simp
  show "nextSelectCacheThreshold_0 loc' =
      (if zeroCount bv + of_nat (64 - popcount (vector bv ! k)) \<ge> nextSelectCacheThreshold_0 loc
       then nextSelectCacheThreshold_0 loc + EVERY_OTHER_1_POS else nextSelectCacheThreshold_0 loc)"
    using eq c(4) by simp
qed

lemma build_step_cache:
  assumes idx: "idx_inv n (sb, blk, wd) (bv, loc)" and pos: "pos_ok n k (sb, blk, wd)"
    and k: "k < n" and n: "n \<le> 2 ^ 38" and W: "length W = n"
    and cnt: "cnt_inv W k bv" and cache: "cache_inv W k (bv, loc)"
    and step: "build_step k (bv, loc) = Some (bv', loc')"
  shows "cache_inv W (k + 1) (bv', loc')"
proof -
  from cnt have vW: "vector bv = W" by (simp add: cnt_inv_def)
  have kW: "k < length W" using k W by simp
  have kv: "k < length (vector bv)" using kW vW by simp
  note cs = build_step_caches [OF step kv]
  note cn = build_step_counts [OF step kv]
  from build_step_cnt [OF cnt kW step]
  have one: "oneCount bv' = of_nat (occ True (bits_of_words W) (64 * (k + 1)))"
    and zero: "zeroCount bv' = of_nat (occ False (bits_of_words W) (64 * (k + 1)))"
    by (simp_all add: cnt_inv_def)
  from pos k have "k = 64 * sb + 8 * blk + wd" "blk < 8" "wd < 8" by (auto simp: pos_ok_def)
  then have "k div 64 = sb" by arith
  then have sbw: "superblockIndex loc = of_nat (2 * (k div 64))"
    using idx by (simp add: idx_inv_def)
  have nW: "length W \<le> 2 ^ 38" using n W by simp
  from cache have c1: "cache_ok True W k (selectCache_1 bv) (nextSelectCacheThreshold_1 loc)"
    and c0: "cache_ok False W k (selectCache_0 bv) (nextSelectCacheThreshold_0 loc)"
    by (simp_all add: cache_inv_def)
  have "cache_ok True W (k + 1) (selectCache_1 bv') (nextSelectCacheThreshold_1 loc')"
    unfolding cs cn(2) [symmetric]
    using c1 kW nW one sbw by (rule cache_ok_step)
  moreover have "cache_ok False W (k + 1) (selectCache_0 bv') (nextSelectCacheThreshold_0 loc')"
    unfolding cs cn(3) [symmetric]
    using c0 kW nW zero sbw by (rule cache_ok_step)
  ultimately show ?thesis by (simp add: cache_inv_def)
qed

lemma build_step_sb0:
  assumes idx: "idx_inv n (sb, blk, wd) (bv, loc)" and pos: "pos_ok n k (sb, blk, wd)"
    and k: "k < n" and n: "n < 2 ^ 58"
    and sb0: "sb0_inv (sb, blk, wd) (bv, loc)"
    and step: "build_step k (bv, loc) = Some (bv', loc')"
  shows "sb0_inv (next_pos n k (sb, blk, wd)) (bv', loc')"
proof -
  obtain bv1 loc1 where s1: "cache_word (count_word k (vector bv ! k) (bv, loc)) = (bv1, loc1)"
    by (cases "cache_word (count_word k (vector bv ! k) (bv, loc))") auto
  note fr = count_cache_frame [OF s1]
  note st = build_step_cases [OF idx pos k n s1]
  from idx have lenS: "length (superBlocks bv) = 2 * (n div 64) + 2"
    by (simp add: idx_inv_def)
  from pos k have pk: "blk < 8" by (auto simp: pos_ok_def)
  show ?thesis
  proof (cases "wd + 1 = 8 \<or> k + 1 = n")
    case False
    then have "(bv', loc') = (bv1, loc1)" using st step by simp
    moreover have "next_pos n k (sb, blk, wd) = (sb, blk, wd + 1)"
      using False by (simp add: next_pos_def)
    ultimately show ?thesis using sb0 fr(2,7) by (simp add: sb0_inv_def)
  next
    case True
    show ?thesis
    proof (cases "blk = 7")
      case b7: False
      have np: "next_pos n k (sb, blk, wd) = (sb, blk + 1, 0)"
        using True b7 by (simp add: next_pos_def)
      have res: "bv' = bv1"
        "metadata1Builder loc' = fold_m1 blk (superBlockOneCounter loc1) (metadata1Builder loc)"
        using st step True b7 by (auto simp: fold_m1_def)
      show ?thesis
        unfolding np using res sb0 fr(2) by (simp add: sb0_inv_def fold_keeps_base)
    next
      case b7: True
      have np: "next_pos n k (sb, blk, wd) = (sb + 1, 0, 0)"
        using True b7 by (simp add: next_pos_def)
      have res: "superBlocks bv' = (superBlocks bv)[2 * sb := metadata1Builder loc,
                                                     2 * sb + 1 := metadata2Builder loc]"
        using st step True b7 by auto
      show ?thesis
        unfolding np using res sb0 lenS by (cases "sb = 0") (simp_all add: sb0_inv_def)
    qed
  qed
qed

lemma loop_inv_step:
  assumes inv: "loop_inv W k s" and k: "k < length W" and n: "length W < 2 ^ 58"
  shows "\<exists>s'. build_step k s = Some s' \<and> loop_inv W (k + 1) s'"
proof -
  define n where "n = length W"
  obtain bv loc where s: "s = (bv, loc)" by (cases s) auto
  obtain sb blk wd where p: "pos_at n k = (sb, blk, wd)" by (cases "pos_at n k") auto
  have n0: "0 < n" "k \<le> n" "k < n" "n < 2 ^ 58" using k n by (auto simp: n_def)
  have pos: "pos_ok n k (sb, blk, wd)" using pos_ok_at [OF n0(1,2)] p by simp
  from inv have idx: "idx_inv n (sb, blk, wd) (bv, loc)" and cnt: "cnt_inv W k bv"
    and sb0: "sb0_inv (sb, blk, wd) (bv, loc)"
    and meta: "meta_inv W k (sb, blk, wd) (bv, loc)"
    and bounded: "n \<le> 2 ^ 38 \<Longrightarrow> cache_inv W k (bv, loc)"
    by (simp_all add: loop_inv_def s n_def [symmetric] p)
  from build_step_idx [OF idx pos n0(3,4)]
  obtain s' where st: "build_step k (bv, loc) = Some s'"
    and idx': "idx_inv n (next_pos n k (sb, blk, wd)) s'" by auto
  obtain bv' loc' where s': "s' = (bv', loc')" by (cases s') auto
  note st' = st [unfolded s']
  have kW: "k < length W" using k .
  have cnt': "cnt_inv W (k + 1) bv'" using cnt kW st' by (rule build_step_cnt)
  have sb0': "sb0_inv (next_pos n k (sb, blk, wd)) (bv', loc')"
    using idx pos n0(3,4) sb0 st' by (rule build_step_sb0)
  have meta': "meta_inv W (k + 1) (next_pos n k (sb, blk, wd)) (bv', loc')"
    using idx pos n0(3,4) n_def [symmetric] cnt meta st' by (rule build_step_meta)
  have b': "cache_inv W (k + 1) (bv', loc')" if le: "n \<le> 2 ^ 38"
    using idx pos n0(3) le n_def [symmetric] cnt bounded [OF le] st' by (rule build_step_cache)
  have "loop_inv W (k + 1) s'"
    unfolding loop_inv_def s' n_def [symmetric] using idx' cnt' sb0' meta' b' p by (simp add: s')
  then show ?thesis using st s by auto
qed

lemma superBlocks_size:
  assumes "n < 2 ^ 58"
  shows "unat (push_bit 1 (drop_bit 6 (of_nat n :: u64)) + 2) = 2 * (n div 64) + 2"
proof -
  have n64: "n < 2 ^ 64" using assms by (rule less_trans) simp
  have "unat (drop_bit 6 (of_nat n :: u64)) = n div 64"
    by (simp only: unat_drop_bit_eq unat_of_nat64 [OF n64]) (simp add: drop_bit_eq_div)
  moreover have "n div 64 < 2 ^ 64" using n64 by (simp add: less_mult_imp_div_less)
  ultimately have "drop_bit 6 (of_nat n :: u64) = of_nat (n div 64)"
    by (simp only: word_unat_eq_iff unat_of_nat64)
  then have "push_bit 1 (drop_bit 6 (of_nat n :: u64)) + 2 = of_nat (2 * (n div 64) + 2)"
    by (simp add: push_bit_eq_mult)
  moreover have "2 * (n div 64) + 2 < (2 :: nat) ^ 64" using assms by simp
  ultimately show ?thesis by (simp only: unat_of_nat64)
qed

lemma loop_inv_init:
  assumes "length (vector v) < 2 ^ 58" and "oneCount v = 0" "zeroCount v = 0" "lastOnePos v = 0"
    "lastZeroPos v = 0" "L0SingleBlockData v = 0" "selectCache_0 v = []" "selectCache_1 v = []"
  shows "loop_inv (vector v) 0
     (v\<lparr> superBlocks := replicate (unat (push_bit 1 (drop_bit 6 (of_nat (length (vector v)) :: u64)) + 2)) 0 \<rparr>,
      init_locals)"
proof -
  have "block_fields 0 0 = replicate 7 0" using fields_fresh [of 0] by simp
  then have "meta_rep (vector v) 0 0 0 0" by (simp add: meta_rep_def)
  then show ?thesis
    using assms unfolding loop_inv_def superBlocks_size [OF assms(1)]
    by (simp add: idx_inv_def cnt_inv_def sb0_inv_def meta_inv_def cache_inv_def cache_ok_def
        init_locals_def last_index_def EVERY_OTHER_1_POS_def)
qed

lemma build_loop_inv:
  assumes "length (vector v) < 2 ^ 58" and "oneCount v = 0" "zeroCount v = 0" "lastOnePos v = 0"
    "lastZeroPos v = 0" "L0SingleBlockData v = 0" "selectCache_0 v = []" "selectCache_1 v = []"
  shows "\<exists>s. build_loop (length (vector v))
     (v\<lparr> superBlocks := replicate (unat (push_bit 1 (drop_bit 6 (of_nat (length (vector v)) :: u64)) + 2)) 0 \<rparr>,
      init_locals) = Some s \<and> loop_inv (vector v) (length (vector v)) s"
proof (rule build_loop_induct [where P = "loop_inv (vector v)" and n = "length (vector v)"])
  show "loop_inv (vector v) 0
     (v\<lparr> superBlocks := replicate (unat (push_bit 1 (drop_bit 6 (of_nat (length (vector v)) :: u64)) + 2)) 0 \<rparr>,
      init_locals)"
    using assms by (rule loop_inv_init)
  show "\<exists>s'. build_step k s = Some s' \<and> loop_inv (vector v) (k + 1) s'"
    if "k < length (vector v)" "loop_inv (vector v) k s" for k s
    using that(2,1) assms(1) by (rule loop_inv_step)
  show "length (vector v) \<le> length (vector v)" by simp
qed

lemma buildHelpers_correct:
  assumes n0: "0 < length (vector v)" and n: "length (vector v) < 2 ^ 58"
    and init: "oneCount v = 0" "zeroCount v = 0" "lastOnePos v = 0"
    "lastZeroPos v = 0" "L0SingleBlockData v = 0" "selectCache_0 v = []" "selectCache_1 v = []"
  shows "\<exists>v'. buildHelpers v = Some v' \<and> built_ok (vector v) v' \<and> built_meta (vector v) v' \<and>
           (length (vector v) \<le> 2 ^ 38 \<longrightarrow> built_cache (vector v) v')"
proof -
  define W where "W = vector v"
  define n where "n = length W"
  from build_loop_inv [OF n init] obtain s where
    loop: "build_loop (length (vector v))
     (v\<lparr> superBlocks := replicate (unat (push_bit 1 (drop_bit 6 (of_nat (length (vector v)) :: u64)) + 2)) 0 \<rparr>,
      init_locals) = Some s" and inv: "loop_inv W n s"
    by (auto simp: W_def n_def)
  obtain bv loc where s: "s = (bv, loc)" by (cases s) auto
  obtain sb blk wd where p: "pos_at n n = (sb, blk, wd)" by (cases "pos_at n n") auto
  have npos: "0 < n" "n < 2 ^ 58" using n0 n by (simp_all add: n_def W_def)
  from pos_ok_at [OF npos(1), of n] p
  have pk: "blk < 8" "wd = 0" "n \<le> 64 * sb + 8 * blk" "64 * sb + 8 * blk < n + 8"
    by (auto simp: pos_ok_def)
  from inv have idx: "idx_inv n (sb, blk, wd) (bv, loc)" and cnt: "cnt_inv W n bv"
    and sb0: "sb0_inv (sb, blk, wd) (bv, loc)"
    and minv: "meta_inv W n (sb, blk, wd) (bv, loc)"
    and bounded: "n \<le> 2 ^ 38 \<Longrightarrow> cache_inv W n (bv, loc)"
    by (simp_all add: loop_inv_def s n_def [symmetric] p)
  from idx have lenS: "length (superBlocks bv) = 2 * (n div 64) + 2"
    and sbi: "superblockIndex loc = of_nat (2 * sb)"
    by (simp_all add: idx_inv_def)
  have sb_small: "2 * sb < 2 ^ 64" "2 * sb + 1 < 2 ^ 64" using pk npos by simp_all
  have u: "unat (superblockIndex loc) = 2 * sb"
    unfolding sbi by (rule unat_of_nat64 [OF sb_small(1)])
  have u1: "unat (superblockIndex loc + 1) = 2 * sb + 1"
  proof -
    have "superblockIndex loc + 1 = of_nat (2 * sb + 1)" using sbi by simp
    then show ?thesis by (simp only: unat_of_nat64 [OF sb_small(2)])
  qed
  have nle: "n div 64 \<le> sb" using pk by arith
  define S' where "S' = (if sb \<le> n div 64
      then (superBlocks bv)[2 * sb := metadata1Builder loc, 2 * sb + 1 := metadata2Builder loc]
      else superBlocks bv)"
  have a1: "(2 * sb < length (superBlocks bv)) = (sb \<le> n div 64)" unfolding lenS by arith
  have a2: "(2 * sb + 1 < length (superBlocks bv)) = (sb \<le> n div 64)" unfolding lenS by arith
  have res: "buildHelpers v = Some (bv\<lparr> superBlocks := S' \<rparr>)"
    unfolding buildHelpers_def Let_def loop s S'_def
    by (simp add: vec_set_def u u1 a1 a2 del: One_nat_def)
  have lenS': "length S' = 2 * (n div 64) + 2" using lenS by (simp add: S'_def)
  have cnt': "cnt_inv W n (bv\<lparr> superBlocks := S' \<rparr>)" using cnt by (simp add: cnt_inv_def)
  have sb0': "drop_bit 20 (S' ! 0) = 0"
    using sb0 lenS by (cases "sb = 0") (simp_all add: sb0_inv_def S'_def)
  have ok: "built_ok W (bv\<lparr> superBlocks := S' \<rparr>)"
    using cnt' lenS' sb0' by (simp add: built_ok_def n_def)
  have meta: "built_meta W (bv\<lparr> superBlocks := S' \<rparr>)"
  proof -
    from minv have rep: "meta_rep W sb blk (metadata1Builder loc) (metadata2Builder loc)"
      and old: "\<And>j. j < sb \<Longrightarrow> meta_rep W j 7 (superBlocks bv ! (2 * j)) (superBlocks bv ! (2 * j + 1))"
      and l0d: "L0SingleBlockData bv = (if 2147483647 \<le> sb then of_nat (ones_upto W (4096 * 2147483647)) else 0)"
      by (auto simp: meta_inv_def)
    have all: "meta_rep W j (if j < sb then 7 else blk) (S' ! (2 * j)) (S' ! (2 * j + 1))"
      if j: "j \<le> n div 64" for j
    proof (cases "j < sb")
      case True
      then show ?thesis using old [OF True] by (simp add: S'_def)
    next
      case False
      with j nle have "j = sb" "sb \<le> n div 64" by simp_all
      then show ?thesis using rep lenS by (simp add: S'_def)
    qed
    have "blk < 8 \<and> n \<le> 64 * sb + 8 * blk \<and> 64 * sb + 8 * blk < n + 8 \<and>
        (\<forall>j \<le> n div 64.
           meta_rep W j (if j < sb then 7 else blk) (S' ! (2 * j)) (S' ! (2 * j + 1))) \<and>
        L0SingleBlockData bv =
          (if 2147483647 \<le> sb then of_nat (ones_upto W (4096 * 2147483647)) else 0)"
      using pk all l0d by simp
    then have "\<exists>sb blk. blk < 8 \<and> n \<le> 64 * sb + 8 * blk \<and> 64 * sb + 8 * blk < n + 8 \<and>
        (\<forall>j \<le> n div 64.
           meta_rep W j (if j < sb then 7 else blk) (S' ! (2 * j)) (S' ! (2 * j + 1))) \<and>
        L0SingleBlockData bv =
          (if 2147483647 \<le> sb then of_nat (ones_upto W (4096 * 2147483647)) else 0)"
      by blast
    then show ?thesis
      unfolding built_meta_def n_def [symmetric] by simp
  qed
  have cache: "built_cache W (bv\<lparr> superBlocks := S' \<rparr>)" if le: "n \<le> 2 ^ 38"
  proof -
    from bounded [OF le]
    have c1: "cache_ok True W n (selectCache_1 bv) (nextSelectCacheThreshold_1 loc)"
      and c0: "cache_ok False W n (selectCache_0 bv) (nextSelectCacheThreshold_0 loc)"
      by (auto simp: cache_inv_def)
    have "\<exists>th. cache_ok True W n (selectCache_1 bv) th" using c1 by blast
    moreover have "\<exists>th. cache_ok False W n (selectCache_0 bv) th" using c0 by blast
    ultimately show ?thesis
      unfolding built_cache_def n_def [symmetric] by simp
  qed
  show ?thesis
    using res ok meta cache by (auto simp: W_def n_def)
qed

section \<open>A built bitvector\<close>

lemma bits_of_words_ctor:
  assumes len: "length W = n" and N: "length B < 64 * n"
    and bits: "\<And>j i. j < n \<Longrightarrow> i < 64 \<Longrightarrow> bit (W ! j) i \<longleftrightarrow> (64 * j + i < length B \<and> B ! (64 * j + i))"
  shows "bits_of_words W = B @ replicate (64 * n - length B) False"
proof (rule nth_equalityI)
  show "length (bits_of_words W) = length (B @ replicate (64 * n - length B) False)"
    using len N by simp
  fix p assume "p < length (bits_of_words W)"
  then have p: "p < 64 * n" using len by simp
  then have j: "p div 64 < n" by (simp add: less_mult_imp_div_less mult.commute)
  have "bits_of_words W ! p = bit (W ! (p div 64)) (p mod 64)"
    using p len by (simp add: nth_bits_of_words)
  also have "\<dots> = (64 * (p div 64) + p mod 64 < length B \<and> B ! (64 * (p div 64) + p mod 64))"
    using j by (intro bits) simp_all
  also have "64 * (p div 64) + p mod 64 = p" by simp
  finally show "bits_of_words W ! p = (B @ replicate (64 * n - length B) False) ! p"
    using p by (auto simp: nth_append)
qed

text \<open>Construction followed by \<open>buildHelpers\<close> always succeeds, for a string of any
  length a \<open>std::string\<close> can have.\<close>

lemma built_correct:
  assumes "length s < 2 ^ 63"
  shows "\<exists>v. built s = Some v \<and> length (vector v) = length s div 64 + 1 \<and>
     bits_of_words (vector v) = bits_of s @ replicate (64 * length (vector v) - length (bits_of s)) False \<and>
     built_ok (vector v) v \<and> built_meta (vector v) v \<and>
     (length (vector v) \<le> 2 ^ 38 \<longrightarrow> built_cache (vector v) v)"
proof -
  from bitvector_of_correct [of s] obtain v0 where
    c: "bitvector_of s = Some v0" "length (vector v0) = length s div 64 + 1"
    and bits: "\<And>j i. j < length (vector v0) \<Longrightarrow> i < 64 \<Longrightarrow>
          bit (vector v0 ! j) i \<longleftrightarrow> (64 * j + i < length (bits_of s) \<and> bits_of s ! (64 * j + i))"
    and init: "L0SingleBlockData v0 = 0" "oneCount v0 = 0" "zeroCount v0 = 0" "lastOnePos v0 = 0"
       "lastZeroPos v0 = 0" "selectCache_0 v0 = []" "selectCache_1 v0 = []"
    by blast
  have n0: "0 < length (vector v0)" using c(2) by simp
  have "length s div 64 < 2 ^ 57" using assms by (simp add: less_mult_imp_div_less)
  then have n: "length (vector v0) < 2 ^ 58" using c(2) by simp
  from buildHelpers_correct [OF n0 n init(2,3,4,5,1,6,7)] obtain v where
    b: "buildHelpers v0 = Some v" "built_ok (vector v0) v" "built_meta (vector v0) v"
       "length (vector v0) \<le> 2 ^ 38 \<longrightarrow> built_cache (vector v0) v"
    by blast
  have vv: "vector v = vector v0" using b(2) by (simp add: built_ok_def cnt_inv_def)
  have N: "length (bits_of s) < 64 * length (vector v0)"
    using length_bits_of_le [of s] c(2) by simp
  have "bits_of_words (vector v0) =
      bits_of s @ replicate (64 * length (vector v0) - length (bits_of s)) False"
    using refl N bits by (rule bits_of_words_ctor)
  then show ?thesis
    using c b vv by (intro exI [of _ v]) (simp add: built_def)
qed

section \<open>Coordinates of a position\<close>

lemma and_7: "(w :: u64) AND 7 = take_bit 3 w"
  by (simp add: take_bit_eq_mask mask_eq_exp_minus_1)

lemma and_3f: "(w :: u64) AND 0x3F = take_bit 6 w"
  by (simp add: take_bit_eq_mask mask_eq_exp_minus_1)

lemma unat_sb: "unat (drop_bit 12 (ptr :: u64)) = unat ptr div 4096"
  by (simp only: unat_drop_bit_eq) (simp add: drop_bit_eq_div)

lemma unat_sbi: "unat (push_bit 1 (drop_bit 12 (ptr :: u64))) = 2 * (unat ptr div 4096)"
proof -
  have "unat ptr < 2 ^ 64" using unsigned_less [of ptr] by simp
  then have "2 * (unat ptr div 4096) < 2 ^ 64" by simp
  then show ?thesis
    by (simp only: push_bit_eq_mult unat_word_ariths unat_sb) simp
qed

lemma unat_sbi1: "unat (push_bit 1 (drop_bit 12 (ptr :: u64)) + 1) = 2 * (unat ptr div 4096) + 1"
proof -
  have "unat ptr < 2 ^ 64" using unsigned_less [of ptr] by simp
  then have "2 * (unat ptr div 4096) + 1 < 2 ^ 64" by simp
  then show ?thesis
    by (simp only: unat_word_ariths unat_sbi) simp
qed

lemma unat_blockId: "unat (drop_bit 9 (ptr :: u64) AND 7) = (unat ptr div 512) mod 8"
  by (simp only: and_7 unsigned_take_bit_eq unat_drop_bit_eq) (simp add: drop_bit_eq_div take_bit_eq_mod)

lemma unat_which: "unat (drop_bit 6 (ptr :: u64) AND 7) = (unat ptr div 64) mod 8"
  by (simp only: and_7 unsigned_take_bit_eq unat_drop_bit_eq) (simp add: drop_bit_eq_div take_bit_eq_mod)

lemma unat_bit: "unat ((ptr :: u64) AND 0x3F) = unat ptr mod 64"
  by (simp only: and_3f unsigned_take_bit_eq) (simp add: take_bit_eq_mod)

lemma unat_begin: "unat (push_bit 3 (drop_bit 9 (ptr :: u64))) = 8 * (unat ptr div 512)"
proof -
  have "unat ptr < 2 ^ 64" using unsigned_less [of ptr] by simp
  then have "8 * (unat ptr div 512) < 2 ^ 64" by simp
  moreover have "unat (drop_bit 9 ptr) = unat ptr div 512"
    by (simp only: unat_drop_bit_eq) (simp add: drop_bit_eq_div)
  ultimately show ?thesis
    by (simp only: push_bit_eq_mult unat_word_ariths) simp
qed

lemma unat_add_small:
  assumes "unat (x :: u64) + k < 2 ^ 64"
  shows "unat (x + of_nat k) = unat x + k"
proof -
  have "k < 2 ^ 64" using assms by simp
  then have "unat (of_nat k :: u64) = k" by (rule unat_of_nat64)
  then show ?thesis using assms by (simp add: unat_word_ariths)
qed

lemma mask_word: "(push_bit r 1 - 1 :: u64) = mask r"
  by (simp add: mask_eq_exp_minus_1)

section \<open>rank\<close>

lemma div_4096: "(q::nat) div 4096 = q div 64 div 64"
  using div_mult2_eq [of q 64 64] by simp

lemma div_512: "(q::nat) div 512 = q div 64 div 8"
  using div_mult2_eq [of q 64 8] by simp

lemma block_start: "512 * ((q::nat) div 512) = 4096 * (q div 4096) + 512 * ((q div 512) mod 8)"
proof -
  define d where "d = q div 512"
  have e: "q div 4096 = d div 8" unfolding d_def using div_mult2_eq [of q 512 8] by simp
  have "512 * d = 4096 * (d div 8) + 512 * (d mod 8)"
    using mult_div_mod_eq [of 8 d] by linarith
  then show ?thesis unfolding d_def [symmetric] e .
qed

lemma block_of_word_less:
  assumes "wi < 64 * sb + 8 * blk" and "sb \<le> wi div 64" and "blk < 8"
  shows "((wi::nat) div 8) mod 8 < blk"
proof -
  have "64 * sb \<le> 64 * (wi div 64)" using assms(2) by simp
  also have "\<dots> \<le> wi" by simp
  finally have "(64 * sb) div 8 \<le> wi div 8" by (rule div_le_mono)
  then have lo: "8 * sb \<le> wi div 8" by simp
  have "wi < (8 * sb + blk) * 8" using assms(1) by simp
  then have hi: "wi div 8 < 8 * sb + blk" by (rule less_mult_imp_div_less)
  from lo obtain c where c: "wi div 8 = 8 * sb + c" using le_Suc_ex by blast
  with hi have "c < blk" by simp
  then show ?thesis using c assms(3) by simp
qed

lemma word_in_block: "8 * ((q::nat) div 512) + (q div 64) mod 8 = q div 64"
  by (simp add: div_512)

lemma rank_words_Suc:
  "rank_words W b (Suc w) =
     Option.bind (rank_words W b w)
       (\<lambda>blockSum. Option.bind (vec_at W (unat (b + of_nat w)))
          (\<lambda>x. Some (blockSum + of_nat (popcount x))))"
  by (simp add: rank_words_def)

lemma rank_words_val:
  assumes "unat b + w \<le> length W" and "length W < 2 ^ 64"
  shows "rank_words W b w =
     Some (of_nat (ones_upto W (64 * (unat b + w)) - ones_upto W (64 * unat b)))"
  using assms(1)
proof (induction w)
  case 0
  then show ?case by (simp add: rank_words_def)
next
  case (Suc w)
  then have IH: "rank_words W b w =
     Some (of_nat (ones_upto W (64 * (unat b + w)) - ones_upto W (64 * unat b)))" by simp
  have "unat b + w < 2 ^ 64" using Suc.prems assms(2) by simp
  then have u: "unat (b + of_nat w) = unat b + w" by (rule unat_add_small)
  have k: "unat b + w < length W" using Suc.prems by simp
  have st: "ones_upto W (64 * (unat b + w + 1)) = ones_upto W (64 * (unat b + w)) + popcount (W ! (unat b + w))"
    using k by (rule occ_word_full)
  have mono: "ones_upto W (64 * unat b) \<le> ones_upto W (64 * (unat b + w))"
    by (intro occ_mono) simp
  have "rank_words W b (Suc w) =
      Some (of_nat (ones_upto W (64 * (unat b + w)) - ones_upto W (64 * unat b)) +
            of_nat (popcount (W ! (unat b + w))))"
    unfolding rank_words_Suc IH using k by (simp add: vec_at_def u)
  also have "(of_nat (ones_upto W (64 * (unat b + w)) - ones_upto W (64 * unat b)) +
            of_nat (popcount (W ! (unat b + w))) :: u16) =
      of_nat (ones_upto W (64 * (unat b + w)) - ones_upto W (64 * unat b) + popcount (W ! (unat b + w)))"
    by simp
  also have "ones_upto W (64 * (unat b + w)) - ones_upto W (64 * unat b) + popcount (W ! (unat b + w)) =
      ones_upto W (64 * (unat b + Suc w)) - ones_upto W (64 * unat b)"
    using st mono by simp
  finally show ?case .
qed

lemma pre_field:
  "(if b = 1 then pre + (drop_bit 8 m1 AND 0xFFF)
    else if b = 2 then pre + (push_bit 4 (m1 AND 0xFF) OR drop_bit 60 m2)
    else if b > 2 then pre + (drop_bit ((b - 3) * 12) m2 AND 0xFFF)
    else pre) =
   pre + (if b = 0 then 0 else block_fields m1 m2 ! (b - 1))" if "b < 8"
proof -
  from that consider "b = 0" | "b = 1" | "b = 2" | "b = 3" | "b = 4" | "b = 5" | "b = 6" | "b = 7"
    by arith
  then show ?thesis by cases (simp_all add: block_fields_def)
qed

lemma ucast_small: "x < 2 ^ 16 \<Longrightarrow> (ucast (of_nat x :: u16) :: u64) = of_nat x"
  by (simp add: unsigned_of_nat take_bit_nat_eq_self)

text \<open>What \<open>rank_1\<close> computes from the two metadata words of the superblock of \<open>ptr\<close>,
  for every position inside the word array.\<close>

lemma rank_1_eq:
  assumes lenS: "length (superBlocks v) = 2 * (length (vector v) div 64) + 2"
    and n: "length (vector v) < 2 ^ 58" and p: "unat ptr < 64 * length (vector v)"
  shows "rank_1 v ptr = Some
     (drop_bit 20 (superBlocks v ! (2 * (unat ptr div 4096))) +
      (if ptr > L0BLOCK_SIZE then L0SingleBlockData v else 0) +
      (if (unat ptr div 512) mod 8 = 0 then 0
       else block_fields (superBlocks v ! (2 * (unat ptr div 4096)))
              (superBlocks v ! (2 * (unat ptr div 4096) + 1)) ! ((unat ptr div 512) mod 8 - 1)) +
      of_nat (ones_upto (vector v) (unat ptr) - ones_upto (vector v) (512 * (unat ptr div 512))))"
proof -
  define W where "W = vector v"
  define q where "q = unat ptr"
  define wi where "wi = q div 64"
  have wi: "wi < length W" using p unfolding wi_def q_def W_def by (simp add: less_mult_imp_div_less mult.commute)
  have j: "q div 4096 \<le> length W div 64"
  proof -
    have "q div 4096 = wi div 64" unfolding wi_def by (rule div_4096)
    then show ?thesis using wi by (simp add: div_le_mono)
  qed
  then have inb: "2 * (q div 4096) < length (superBlocks v)" "2 * (q div 4096) + 1 < length (superBlocks v)"
    using lenS by (simp_all add: W_def)
  have n64: "length W < 2 ^ 64" using n unfolding W_def by (rule less_trans) simp
  have bw: "8 * (q div 512) + (q div 64) mod 8 = wi" unfolding wi_def by (rule word_in_block)
  have ub: "unat (push_bit 3 (drop_bit 9 ptr)) = 8 * (q div 512)" unfolding q_def by (rule unat_begin)
  have rw: "rank_words W (push_bit 3 (drop_bit 9 ptr)) ((q div 64) mod 8) =
      Some (of_nat (ones_upto W (64 * wi) - ones_upto W (512 * (q div 512))))"
  proof -
    have "unat (push_bit 3 (drop_bit 9 ptr)) + (q div 64) mod 8 \<le> length W"
      unfolding ub bw using wi by simp
    from rank_words_val [OF this n64] show ?thesis unfolding ub bw by simp
  qed
  have uw: "unat (push_bit 3 (drop_bit 9 ptr) + of_nat ((q div 64) mod 8)) = wi"
  proof -
    have "unat (push_bit 3 (drop_bit 9 ptr)) + (q div 64) mod 8 < 2 ^ 64"
      unfolding ub bw using wi n64 by simp
    from unat_add_small [OF this] show ?thesis unfolding ub bw .
  qed
  define x1 where "x1 = ones_upto W (64 * wi) - ones_upto W (512 * (q div 512))"
  define x2 where "x2 = popcount (W ! wi AND mask (q mod 64))"
  have q_eq: "64 * wi + q mod 64 = q" unfolding wi_def by simp
  have x2': "ones_upto W q = ones_upto W (64 * wi) + x2"
    using occ_word [OF wi, of "q mod 64"] unfolding x2_def q_eq by simp
  have m1: "ones_upto W (512 * (q div 512)) \<le> ones_upto W (64 * wi)"
    using bw by (intro occ_mono) simp
  have x12: "x1 + x2 = ones_upto W q - ones_upto W (512 * (q div 512))"
    unfolding x1_def using x2' m1 by simp
  have "ones_upto W q \<le> ones_upto W (512 * (q div 512)) + (q - 512 * (q div 512))"
    by (intro occ_diff_le) simp
  then have small: "x1 + x2 < 2 ^ 16" unfolding x12 by simp
  have sum: "(ucast (of_nat x1 + of_nat x2 :: u16) :: u64) = of_nat (x1 + x2)"
    using ucast_small [OF small] by simp
  have b8: "(q div 512) mod 8 < 8" by simp
  show ?thesis
    unfolding rank_1_def Let_def unat_sbi unat_sbi1 unat_blockId unat_which unat_bit mask_word
      q_def [symmetric] W_def [symmetric] pre_field [OF b8] rw
    using inb wi
    by (simp add: vec_at_def uw x1_def [symmetric] x2_def [symmetric] sum x12 del: of_nat_add)
qed

text \<open>What the metadata of a built bitvector says about the superblock of a word.\<close>

lemma built_meta_word:
  assumes meta: "built_meta W v" and wi: "wi < length W"
  shows "drop_bit 20 (superBlocks v ! (2 * (wi div 64))) =
           take_bit 44 (of_nat (ones_upto W (4096 * (wi div 64)) - ones_upto W (4096 * l0_start (wi div 64))))"
    and "\<And>i. i < 7 \<Longrightarrow> i \<le> (wi div 8) mod 8 \<Longrightarrow>
           block_fields (superBlocks v ! (2 * (wi div 64))) (superBlocks v ! (2 * (wi div 64) + 1)) ! i =
           of_nat (ones_upto W (4096 * (wi div 64) + 512 * (i + 1)) - ones_upto W (4096 * (wi div 64)))"
proof -
  from meta obtain sb blk where pk: "blk < 8" "length W \<le> 64 * sb + 8 * blk"
    and all: "\<And>j. j \<le> length W div 64 \<Longrightarrow>
           meta_rep W j (if j < sb then 7 else blk) (superBlocks v ! (2 * j)) (superBlocks v ! (2 * j + 1))"
    unfolding built_meta_def by blast
  define j where "j = wi div 64"
  have jle: "j \<le> length W div 64" unfolding j_def using wi by (simp add: div_le_mono)
  note rep = all [OF jle]
  show "drop_bit 20 (superBlocks v ! (2 * (wi div 64))) =
           take_bit 44 (of_nat (ones_upto W (4096 * (wi div 64)) - ones_upto W (4096 * l0_start (wi div 64))))"
    using rep by (simp add: meta_rep_def j_def)
  fix i assume i: "i < 7" "i \<le> (wi div 8) mod 8"
  have "i < (if j < sb then 7 else blk)"
  proof (cases "j < sb")
    case True
    then show ?thesis using i by simp
  next
    case False
    have "wi < 64 * sb + 8 * blk" using wi pk by simp
    moreover have "sb \<le> wi div 64" using False by (simp add: j_def)
    ultimately have "(wi div 8) mod 8 < blk" using pk(1) by (rule block_of_word_less)
    then show ?thesis using False i by simp
  qed
  then show "block_fields (superBlocks v ! (2 * (wi div 64))) (superBlocks v ! (2 * (wi div 64) + 1)) ! i =
           of_nat (ones_upto W (4096 * (wi div 64) + 512 * (i + 1)) - ones_upto W (4096 * (wi div 64)))"
    using rep i by (simp add: meta_rep_def j_def)
qed

lemma take_bit_44_small: "x < 2 ^ 44 \<Longrightarrow> take_bit 44 (of_nat x :: u64) = of_nat x"
proof -
  assume x: "x < 2 ^ 44"
  then have "x < 2 ^ 64" by (rule less_trans) simp
  then have "unat (of_nat x :: u64) = x" by (rule unat_of_nat64)
  then show ?thesis
    using x by (simp add: word_unat_eq_iff unsigned_take_bit_eq take_bit_nat_eq_self)
qed

lemma L0_far: "n \<le> 2 ^ 38 \<Longrightarrow> unat (ptr :: u64) < 64 * n \<Longrightarrow> \<not> ptr > L0BLOCK_SIZE"
proof -
  assume "n \<le> 2 ^ 38" "unat ptr < 64 * n"
  then have "unat ptr < 2 ^ 44" by simp
  then show ?thesis by (simp add: L0BLOCK_SIZE_def word_less_nat_alt)
qed

text \<open>\<open>rank_1\<close> on a built bitvector of at most \<open>2^38\<close> words: the ones from the start of
  the L0 region of the position's superblock up to the position.\<close>

lemma rank_1_val:
  assumes ok: "built_ok W v" and meta: "built_meta W v"
    and n: "length W \<le> 2 ^ 38" and p: "unat ptr < 64 * length W"
  shows "rank_1 v ptr =
     Some (of_nat (ones_upto W (unat ptr) - ones_upto W (4096 * l0_start (unat ptr div 4096))))"
proof -
  from ok have vW: "vector v = W" and lenS: "length (superBlocks v) = 2 * (length W div 64) + 2"
    by (simp_all add: built_ok_def cnt_inv_def)
  define q where "q = unat ptr"
  define wi where "wi = q div 64"
  define j where "j = q div 4096"
  define b where "b = (q div 512) mod 8"
  have wi: "wi < length W" using p unfolding wi_def q_def by (simp add: less_mult_imp_div_less mult.commute)
  have jw: "wi div 64 = j" unfolding wi_def j_def by (simp add: div_4096)
  have bw: "(wi div 8) mod 8 = b" unfolding wi_def b_def by (simp add: div_512)
  have n58: "length (vector v) < 2 ^ 58" unfolding vW using n by (rule le_less_trans) simp
  note m = built_meta_word [OF meta wi, unfolded jw bw]
  define A where "A = ones_upto W (4096 * l0_start j)"
  define B where "B = ones_upto W (4096 * j)"
  define C where "C = ones_upto W (512 * (q div 512))"
  define D where "D = ones_upto W q"
  have AB: "A \<le> B" unfolding A_def B_def using l0_start_le [of j] by (intro occ_mono) simp
  have e512: "512 * (q div 512) = 4096 * j + 512 * b" unfolding j_def b_def by (rule block_start)
  have BC: "B \<le> C" unfolding B_def C_def e512 by (intro occ_mono) simp
  have CD: "C \<le> D" unfolding C_def D_def by (intro occ_mono) simp
  have field: "(if b = 0 then 0 else block_fields (superBlocks v ! (2 * j)) (superBlocks v ! (2 * j + 1)) ! (b - 1))
      = (of_nat (C - B) :: u64)"
  proof (cases "b = 0")
    case True
    then show ?thesis unfolding C_def B_def e512 by simp
  next
    case False
    have "b < 8" unfolding b_def by simp
    then have "b - 1 < 7" "b - 1 \<le> b" using False by simp_all
    from m(2) [OF this] False show ?thesis unfolding C_def B_def e512 by simp
  qed
  have "B \<le> 4096 * j" unfolding B_def by (rule occ_le)
  also have "\<dots> \<le> q" unfolding j_def by simp
  also have "\<dots> < 2 ^ 44" using p n unfolding q_def by simp
  finally have "B - A < 2 ^ 44" by simp
  note tb = take_bit_44_small [OF this]
  have "rank_1 v ptr = Some (of_nat (B - A) + 0 + of_nat (C - B) + of_nat (D - C))"
    using rank_1_eq [OF lenS [folded vW] n58 p [folded vW]] L0_far [OF n p] m(1) field tb
    unfolding vW q_def [symmetric] j_def [symmetric] b_def [symmetric]
      A_def [symmetric] B_def [symmetric] C_def [symmetric] D_def [symmetric]
    by simp
  also have "(of_nat (B - A) + 0 + of_nat (C - B) + of_nat (D - C) :: u64) = of_nat ((B - A) + (C - B) + (D - C))"
    by simp
  also have "(B - A) + (C - B) + (D - C) = D - A" using AB BC CD by simp
  finally show ?thesis unfolding D_def A_def q_def j_def .
qed

lemma unat_add_le: "unat (a + b :: u64) \<le> unat a + unat b"
  by (simp add: unat_word_ariths)

lemma unat_of_nat_le: "unat (of_nat x :: u64) \<le> x"
  by (simp add: unat_of_nat)

lemma unat_take_bit_of_nat_le: "unat (take_bit n (of_nat x :: u64)) \<le> x"
proof -
  have "unat (take_bit n (of_nat x :: u64)) \<le> unat (of_nat x :: u64)"
    by (simp add: unsigned_take_bit_eq)
  then show ?thesis using unat_of_nat_le [of x] by simp
qed

text \<open>On every built bitvector \<open>rank_1\<close> answers a position inside the word array with
  at most the position: the counts it adds up are counts of disjoint stretches of bits before
  the position.\<close>

lemma rank_1_le:
  assumes ok: "built_ok W v" and meta: "built_meta W v"
    and n: "length W < 2 ^ 58" and p: "unat ptr < 64 * length W"
  shows "\<exists>r. rank_1 v ptr = Some r \<and> unat r \<le> unat ptr"
proof -
  from ok have vW: "vector v = W" and lenS: "length (superBlocks v) = 2 * (length W div 64) + 2"
    by (simp_all add: built_ok_def cnt_inv_def)
  define q where "q = unat ptr"
  define wi where "wi = q div 64"
  define j where "j = q div 4096"
  define b where "b = (q div 512) mod 8"
  have wi: "wi < length W" using p unfolding wi_def q_def by (simp add: less_mult_imp_div_less mult.commute)
  have jw: "wi div 64 = j" unfolding wi_def j_def by (simp add: div_4096)
  have bw: "(wi div 8) mod 8 = b" unfolding wi_def b_def by (simp add: div_512)
  note m = built_meta_word [OF meta wi, unfolded jw bw]
  define A where "A = ones_upto W (4096 * l0_start j)"
  define B where "B = ones_upto W (4096 * j)"
  define C where "C = ones_upto W (512 * (q div 512))"
  define D where "D = ones_upto W q"
  define L where "L = (if ptr > L0BLOCK_SIZE then L0SingleBlockData v else 0)"
  have AB: "A \<le> B" unfolding A_def B_def using l0_start_le [of j] by (intro occ_mono) simp
  have e512: "512 * (q div 512) = 4096 * j + 512 * b" unfolding j_def b_def by (rule block_start)
  have BC: "B \<le> C" unfolding B_def C_def e512 by (intro occ_mono) simp
  have CD: "C \<le> D" unfolding C_def D_def by (intro occ_mono) simp
  have Dq: "D \<le> q" unfolding D_def by (rule occ_le)
  have field: "(if b = 0 then 0 else block_fields (superBlocks v ! (2 * j)) (superBlocks v ! (2 * j + 1)) ! (b - 1))
      = (of_nat (C - B) :: u64)"
  proof (cases "b = 0")
    case True
    then show ?thesis unfolding C_def B_def e512 by simp
  next
    case False
    have "b < 8" unfolding b_def by simp
    then have "b - 1 < 7" "b - 1 \<le> b" using False by simp_all
    from m(2) [OF this] False show ?thesis unfolding C_def B_def e512 by simp
  qed
  have LA: "unat L \<le> A"
  proof (cases "ptr > L0BLOCK_SIZE")
    case False
    then show ?thesis by (simp add: L_def)
  next
    case True
    then have "17592186044415 < q" by (simp add: L0BLOCK_SIZE_def word_less_nat_alt q_def)
    then have "2147483647 \<le> j" unfolding j_def by simp
    then have A: "A = ones_upto W (4096 * 2147483647)" by (simp add: A_def l0_start_def)
    from meta obtain sb :: nat where
      "L0SingleBlockData v = (if 2147483647 \<le> sb then of_nat (ones_upto W (4096 * 2147483647)) else 0)"
      unfolding built_meta_def by blast
    then have "unat (L0SingleBlockData v) \<le> ones_upto W (4096 * 2147483647)"
      using unat_of_nat_le [of "ones_upto W (4096 * 2147483647)"] by (simp split: if_splits)
    then show ?thesis using True by (simp add: L_def A)
  qed
  define r where "r = take_bit 44 (of_nat (B - A)) + L + of_nat (C - B) + (of_nat (D - C) :: u64)"
  have "rank_1 v ptr = Some r"
    using rank_1_eq [OF lenS [folded vW] n [folded vW] p [folded vW]] m(1) field
    unfolding vW q_def [symmetric] j_def [symmetric] b_def [symmetric]
      A_def [symmetric] B_def [symmetric] C_def [symmetric] D_def [symmetric] L_def [symmetric] r_def
    by simp
  moreover have "unat r \<le> unat ptr"
  proof -
    have "unat r \<le> unat (take_bit 44 (of_nat (B - A)) + L + (of_nat (C - B) :: u64)) + unat (of_nat (D - C) :: u64)"
      unfolding r_def by (rule unat_add_le)
    also have "\<dots> \<le> unat (take_bit 44 (of_nat (B - A)) + L :: u64) + unat (of_nat (C - B) :: u64) + unat (of_nat (D - C) :: u64)"
      using unat_add_le [of "take_bit 44 (of_nat (B - A)) + L" "of_nat (C - B)"] by simp
    also have "\<dots> \<le> unat (take_bit 44 (of_nat (B - A)) :: u64) + unat L + unat (of_nat (C - B) :: u64) + unat (of_nat (D - C) :: u64)"
      using unat_add_le [of "take_bit 44 (of_nat (B - A))" L] by simp
    also have "\<dots> \<le> (B - A) + A + (C - B) + (D - C)"
      using unat_take_bit_of_nat_le [of 44 "B - A"] LA unat_of_nat_le [of "C - B"] unat_of_nat_le [of "D - C"]
      by linarith
    also have "\<dots> = D" using AB BC CD by simp
    finally show ?thesis using Dq by (simp add: q_def)
  qed
  ultimately show ?thesis by blast
qed

lemma rank_1_Some:
  assumes "built_ok W v" and "length W < 2 ^ 58" and "unat ptr < 64 * length W"
  shows "\<exists>r. rank_1 v ptr = Some r"
proof -
  from assms(1) have vW: "vector v = W" and lenS: "length (superBlocks v) = 2 * (length W div 64) + 2"
    by (simp_all add: built_ok_def cnt_inv_def)
  from rank_1_eq [OF lenS [folded vW] assms(2) [folded vW] assms(3) [folded vW]] show ?thesis by blast
qed

lemma rank_limit:
  assumes "0 < n" and "n < 2 ^ 58"
  shows "(push_bit 6 (of_nat n) - 1 :: u64) = of_nat (64 * n - 1)"
proof -
  have "(of_nat (64 * n - 1) :: u64) + 1 = of_nat (64 * n - 1 + 1)" by simp
  also have "64 * n - 1 + 1 = 64 * n" using assms(1) by simp
  finally have "(of_nat (64 * n - 1) :: u64) + 1 = of_nat (64 * n)" .
  then have "(of_nat (64 * n - 1) :: u64) = of_nat (64 * n) - 1" by (simp only: eq_diff_eq)
  then show ?thesis by (simp add: push_bit_eq_mult)
qed

text \<open>\<open>rank\<close> with the clamp of the position written on naturals.\<close>

lemma rank_clamped:
  assumes "length (vector v) = n" and "0 < n" and "n < 2 ^ 58"
  shows "rank v ptr b =
     (if ptr = 0 then Some 0
      else if b = 1 then rank_1 v (if 64 * n - 1 < unat ptr then of_nat (64 * n - 1) else ptr)
      else Option.bind (rank_1 v (if 64 * n - 1 < unat ptr then of_nat (64 * n - 1) else ptr))
             (\<lambda>r. Some ((if 64 * n - 1 < unat ptr then of_nat (64 * n - 1) else ptr) - r)))"
proof -
  have lim: "(push_bit 6 (of_nat n) - 1 :: u64) = of_nat (64 * n - 1)"
    using assms(2,3) by (rule rank_limit)
  have "64 * n - 1 < 2 ^ 64" using assms(3) by simp
  then have u: "unat (of_nat (64 * n - 1) :: u64) = 64 * n - 1" by (rule unat_of_nat64)
  have gt: "(ptr > (of_nat (64 * n - 1) :: u64)) = (64 * n - 1 < unat ptr)"
    by (simp only: word_less_nat_alt u)
  show ?thesis
    unfolding rank_def assms(1) lim Let_def gt by (simp add: word_le_0_iff)
qed

lemma unat_clamp:
  assumes "0 < n" and "n < 2 ^ 58"
  shows "unat (if 64 * n - 1 < unat ptr then of_nat (64 * n - 1) else (ptr :: u64)) < 64 * n"
proof -
  have "64 * n - 1 < 2 ^ 64" using assms(2) by simp
  then have "unat (of_nat (64 * n - 1) :: u64) = 64 * n - 1" by (rule unat_of_nat64)
  then show ?thesis using assms(1) by auto
qed

lemma built_facts:
  assumes "length s < 2 ^ 63"
  obtains v where "built s = Some v" "length (vector v) = length s div 64 + 1"
    "bits_of_words (vector v) = bits_of s @ replicate (64 * length (vector v) - length (bits_of s)) False"
    "built_ok (vector v) v" "built_meta (vector v) v"
    "length (vector v) \<le> 2 ^ 38 \<Longrightarrow> built_cache (vector v) v"
    "length (vector v) < 2 ^ 58" "length (bits_of s) < 64 * length (vector v)"
proof -
  from built_correct [OF assms] obtain v where v: "built s = Some v" "length (vector v) = length s div 64 + 1"
    "bits_of_words (vector v) = bits_of s @ replicate (64 * length (vector v) - length (bits_of s)) False"
    "built_ok (vector v) v" "built_meta (vector v) v"
    "length (vector v) \<le> 2 ^ 38 \<longrightarrow> built_cache (vector v) v"
    by blast
  have "length s div 64 < 2 ^ 57" using assms by (simp add: less_mult_imp_div_less)
  then have "length (vector v) < 2 ^ 58" using v(2) by simp
  moreover have "length (bits_of s) < 64 * length (vector v)"
    using length_bits_of_le [of s] v(2) by simp
  ultimately show ?thesis using v that by blast
qed

section \<open>rank on a built bitvector\<close>

lemma occ_pad: "occ True (B @ replicate m False) p = occ True B p"
proof -
  have "count_list (take k (replicate m False)) True = 0" for k
    by (simp add: take_replicate)
  then show ?thesis by (simp add: occ_def)
qed

lemma occ_all: "length B \<le> p \<Longrightarrow> occ b B p = count_list B b"
  by (simp add: occ_def)

lemma length_le_limit: "length s \<le> 64 * (length s div 64 + 1) - 1"
proof -
  define d r where "d = length s div 64" and "r = length s mod 64"
  have "r < 64" by (simp add: r_def)
  moreover have "length s = 64 * d + r" by (simp add: d_def r_def)
  ultimately have "length s \<le> 64 * (d + 1) - 1" by simp
  then show ?thesis by (simp only: d_def)
qed

lemma run_rank_clamp:
  assumes "length s < 2 ^ 63"
  obtains v where "built s = Some v" "built_ok (vector v) v" "built_meta (vector v) v"
    "length (vector v) = length s div 64 + 1"
    "\<And>W. bits_of_words (vector v) = bits_of s @ replicate (64 * length (vector v) - length (bits_of s)) False"
    "\<And>i b. run_rank s i b =
       (if i = 0 then Some 0
        else if b = 1 then rank_1 v (of_nat (clamp s i))
        else Option.bind (rank_1 v (of_nat (clamp s i))) (\<lambda>r. Some (of_nat (clamp s i) - r)))"
    "\<And>i. unat (of_nat (clamp s i) :: u64) = clamp s i"
    "\<And>i. clamp s i < 64 * length (vector v)"
proof -
  from built_facts [OF assms] obtain v where v: "built s = Some v"
    "length (vector v) = length s div 64 + 1"
    "bits_of_words (vector v) = bits_of s @ replicate (64 * length (vector v) - length (bits_of s)) False"
    "built_ok (vector v) v" "built_meta (vector v) v" "length (vector v) < 2 ^ 58"
    by metis
  define n where "n = length s div 64 + 1"
  have n: "0 < n" "n < 2 ^ 58" using v(2,6) by (auto simp: n_def)
  have c64: "clamp s i < 2 ^ 64" for i
  proof -
    have "clamp s i \<le> 64 * n - 1" by (simp add: clamp_def n_def)
    also have "\<dots> < 2 ^ 64" using n by simp
    finally show ?thesis .
  qed
  have q: "(if 64 * n - 1 < unat i then of_nat (64 * n - 1) else i) = (of_nat (clamp s i) :: u64)" for i
    by (simp add: clamp_def n_def min_def)
  have r: "run_rank s i b =
       (if i = 0 then Some 0
        else if b = 1 then rank_1 v (of_nat (clamp s i))
        else Option.bind (rank_1 v (of_nat (clamp s i))) (\<lambda>r. Some (of_nat (clamp s i) - r)))" for i b
    unfolding run_rank_def v(1) using rank_clamped [OF v(2) [folded n_def] n, of i b]
    by (simp only: q) simp
  have u: "unat (of_nat (clamp s i) :: u64) = clamp s i" for i
    using c64 [of i] by (rule unat_of_nat64)
  have l: "clamp s i < 64 * length (vector v)" for i
    using n unfolding v(2) clamp_def n_def [symmetric] by simp
  show ?thesis using that [OF v(1,4,5,2) v(3) r u l] .
qed

text \<open>Below the second L0 region (strings of fewer than \<open>2^43 - 4096\<close> characters) \<open>rank\<close>
  counts the bits before the clamped position; the padding of the last word counts as zeros.\<close>

lemma run_rank_small:
  assumes len: "length s < 8796093018112"
  shows "run_rank s i b =
     Some (if i = 0 then 0
           else if b = 1 then of_nat (occ True (bits_of s) (clamp s i))
           else of_nat (clamp s i - occ True (bits_of s) (clamp s i)))"
proof -
  have "length s < 2 ^ 63" using len by simp
  from run_rank_clamp [OF this] obtain v where v: "built_ok (vector v) v" "built_meta (vector v) v"
    "length (vector v) = length s div 64 + 1"
    "bits_of_words (vector v) = bits_of s @ replicate (64 * length (vector v) - length (bits_of s)) False"
    and r: "\<And>i b. run_rank s i b =
       (if i = 0 then Some 0
        else if b = 1 then rank_1 v (of_nat (clamp s i))
        else Option.bind (rank_1 v (of_nat (clamp s i))) (\<lambda>r. Some (of_nat (clamp s i) - r)))"
    and u: "\<And>i. unat (of_nat (clamp s i) :: u64) = clamp s i"
    and l: "\<And>i. clamp s i < 64 * length (vector v)"
    by metis
  define q where "q = clamp s i"
  have n38: "length (vector v) \<le> 2 ^ 38" using len v(3) by simp
  have "q < 64 * (length s div 64 + 1)" using l [of i] v(3) by (simp add: q_def)
  also have "\<dots> \<le> 64 * (8796093018111 div 64 + 1)"
    using len by (intro mult_le_mono2 add_le_mono1 div_le_mono) simp
  finally have "q < 8796093018112" by simp
  then have "q div 4096 < 2147483647" by simp
  then have l0: "l0_start (q div 4096) = 0" by (simp add: l0_start_def)
  have ones: "ones_upto (vector v) p = occ True (bits_of s) p" for p
    unfolding v(4) by (rule occ_pad)
  have r1: "rank_1 v (of_nat q) = Some (of_nat (occ True (bits_of s) q))"
    using rank_1_val [OF v(1,2) n38, of "of_nat q"] l [of i]
    unfolding q_def u l0 [unfolded q_def] ones by (simp add: occ_def)
  have le: "occ True (bits_of s) q \<le> q" by (rule occ_le)
  have "(of_nat q - of_nat (occ True (bits_of s) q) :: u64) = of_nat (q - occ True (bits_of s) q)"
    using le by (simp add: of_nat_diff)
  then show ?thesis
    unfolding r q_def [symmetric] r1 by simp
qed

text \<open>On every built bitvector the two ranks of a position add up, over the naturals, to the
  clamped position.\<close>

lemma run_rank_sum:
  assumes "length s < 2 ^ 63"
  shows "\<exists>r0 r1. run_rank s i 0 = Some r0 \<and> run_rank s i 1 = Some r1 \<and>
           unat r0 + unat r1 = (if i = 0 then 0 else clamp s i)"
proof -
  from run_rank_clamp [OF assms] obtain v where v: "built_ok (vector v) v" "built_meta (vector v) v"
    "length (vector v) = length s div 64 + 1"
    and r: "\<And>i b. run_rank s i b =
       (if i = 0 then Some 0
        else if b = 1 then rank_1 v (of_nat (clamp s i))
        else Option.bind (rank_1 v (of_nat (clamp s i))) (\<lambda>r. Some (of_nat (clamp s i) - r)))"
    and u: "\<And>i. unat (of_nat (clamp s i) :: u64) = clamp s i"
    and l: "\<And>i. clamp s i < 64 * length (vector v)"
    by metis
  have "length s div 64 < 2 ^ 57" using assms by (simp add: less_mult_imp_div_less)
  then have n: "length (vector v) < 2 ^ 58" using v(3) by simp
  define q where "q = (of_nat (clamp s i) :: u64)"
  have "unat q < 64 * length (vector v)" unfolding q_def u by (rule l)
  from rank_1_le [OF v(1,2) n this] obtain r1 where r1: "rank_1 v q = Some r1" "unat r1 \<le> unat q"
    by blast
  then have "r1 \<le> q" by (simp add: word_le_nat_alt)
  then have "unat (q - r1) = unat q - unat r1" by (rule unat_sub)
  then have "unat (q - r1) + unat r1 = clamp s i" using r1(2) by (simp add: q_def u)
  then show ?thesis
    unfolding r q_def [symmetric] r1 by simp
qed

section \<open>Bit strings with long runs\<close>

lemma bits_of_append: "bits_of (x @ y) = bits_of x @ bits_of y"
  by (simp add: bits_of_def accepted_def)

lemma bits_of_Cons_1: "bits_of (CHR ''1'' # y) = True # bits_of y"
  by (simp add: bits_of_def accepted_def)

lemma bits_of_zeros: "bits_of (replicate k (CHR ''0'')) = replicate k False"
  by (simp add: bits_of_def accepted_def)

lemma occ_Cons: "0 < p \<Longrightarrow> occ b (x # xs) p = (if x = b then 1 else 0) + occ b xs (p - 1)"
  by (cases p) (simp_all add: occ_def)

lemma occ_replicate_other: "x \<noteq> b \<Longrightarrow> occ b (replicate k x @ ys) p = occ b ys (p - k)"
  by (simp add: occ_def take_replicate count_list_0_iff)

lemma occ_replicate_none: "x \<noteq> b \<Longrightarrow> occ b (replicate k x) p = 0"
  by (simp add: occ_def take_replicate count_list_0_iff)

text \<open>\<open>rank\<close> is correct for strings of fewer than \<open>2^43 - 4096\<close> characters.\<close>

lemma rank_correct_below_split:
  assumes "length s < 8796093018112" and "i \<le> length (bits_of s)"
  shows "run_rank s (of_nat i) 1 = Some (of_nat (occ True (bits_of s) i))"
    and "run_rank s (of_nat i) 0 = Some (of_nat (occ False (bits_of s) i))"
proof -
  have N: "length (bits_of s) \<le> length s" by (rule length_bits_of_le)
  then have "i < 2 ^ 64" using assms by simp
  then have u: "unat (of_nat i :: u64) = i" by (rule unat_of_nat64)
  have c: "clamp s (of_nat i) = i"
    using assms(2) N length_le_limit [of s] by (simp add: clamp_def u)
  have z: "occ True (bits_of s) i + occ False (bits_of s) i = i"
    using assms(2) by (rule occ_True_False)
  have i0: "i = 0 \<Longrightarrow> occ b (bits_of s) i = 0" for b by (simp add: occ_def)
  have zi: "((of_nat i :: u64) = 0) = (i = 0)"
  proof
    assume "(of_nat i :: u64) = 0"
    then have "unat (of_nat i :: u64) = 0" by simp
    then show "i = 0" by (simp only: u)
  qed simp
  have f: "i - occ True (bits_of s) i = occ False (bits_of s) i" using z by simp
  show "run_rank s (of_nat i) 1 = Some (of_nat (occ True (bits_of s) i))"
    unfolding run_rank_small [OF assms(1)] c zi using i0 by simp
  show "run_rank s (of_nat i) 0 = Some (of_nat (occ False (bits_of s) i))"
    unfolding run_rank_small [OF assms(1)] c zi f using i0 by simp
qed

section \<open>The cached last positions\<close>

lemma last_index_replicate: "0 < m \<Longrightarrow> last_index b (replicate m b) = m - 1"
proof -
  assume "0 < m"
  then obtain k where m: "m = Suc k" by (cases m) auto
  have "takeWhile (\<lambda>x. x \<noteq> b) (rev (replicate m b)) = []"
    unfolding m rev_replicate by (cases b) simp_all
  then have l: "length (takeWhile (\<lambda>x. x \<noteq> b) (rev (replicate m b))) = 0" by (simp only: list.size)
  show ?thesis unfolding last_index_def l by simp
qed

lemma count_list_replicate: "count_list (replicate m x) y = (if x = y then m else 0)"
  by (induction m) auto

lemma count_list_pad: "count_list (B @ replicate m False) True = count_list B True"
  "count_list (B @ replicate m False) False = count_list B False + m"
  by (simp_all add: count_list_replicate)

text \<open>The four cached values of a built bitvector, in terms of the bit sequence \<open>B\<close> of the
  string and the zero padding that fills up the last word.\<close>

lemma cached_values:
  assumes ok: "built_ok W v" and bits: "bits_of_words W = B @ replicate m False" and m: "0 < m"
  shows "oneCount v = of_nat (count_list B True)"
    "zeroCount v = of_nat (count_list B False + m)"
    "lastZeroPos v = of_nat (64 * length W - 1)"
    "True \<in> set B \<Longrightarrow> lastOnePos v = of_nat (last_index True B)"
proof -
  have len: "64 * length W = length B + m"
    using arg_cong [OF bits, of length] by simp
  have t: "take (64 * length W) (bits_of_words W) = B @ replicate m False"
    unfolding bits len by simp
  from ok have c: "oneCount v = of_nat (occ True (bits_of_words W) (64 * length W))"
    "zeroCount v = of_nat (occ False (bits_of_words W) (64 * length W))"
    "lastOnePos v = of_nat (last_index True (take (64 * length W) (bits_of_words W)))"
    "lastZeroPos v = of_nat (last_index False (take (64 * length W) (bits_of_words W)))"
    by (simp_all add: built_ok_def cnt_inv_def)
  show "oneCount v = of_nat (count_list B True)"
    unfolding c occ_def t by (simp only: count_list_pad)
  show "zeroCount v = of_nat (count_list B False + m)"
    unfolding c occ_def t by (simp only: count_list_pad)
  have "False \<in> set (replicate m False)" using m by simp
  then have li: "last_index False (B @ replicate m False) = length B + (m - 1)"
    by (simp only: last_index_append if_True last_index_replicate [OF m])
  have lz: "lastZeroPos v = of_nat (last_index False (B @ replicate m False))"
    unfolding c t ..
  have "64 * length W - 1 = length B + (m - 1)" using len m by simp
  then show "lastZeroPos v = of_nat (64 * length W - 1)"
    unfolding lz li by (simp only:)
  assume "True \<in> set B"
  have "True \<notin> set (replicate m False)" by simp
  then have "last_index True (B @ replicate m False) = last_index True B"
    by (simp only: last_index_append if_False)
  then show "lastOnePos v = of_nat (last_index True B)"
    unfolding c t by simp
qed

section \<open>The snapshot of the first L0 region\<close>

text \<open>\<open>L0SingleBlockData\<close> is set when the loop closes superblock number \<open>2^31 - 2\<close>.\<close>

lemma built_l0_data:
  assumes meta: "built_meta W v"
  shows "137438953408 < length W \<Longrightarrow>
           L0SingleBlockData v = of_nat (ones_upto W (4096 * 2147483647))"
    and "length W \<le> 137438953400 \<Longrightarrow> L0SingleBlockData v = 0"
proof -
  from meta obtain sb blk :: nat where pk: "blk < 8" "length W \<le> 64 * sb + 8 * blk"
    "64 * sb + 8 * blk < length W + 8"
    and l0: "L0SingleBlockData v =
          (if 2147483647 \<le> sb then of_nat (ones_upto W (4096 * 2147483647)) else 0)"
    unfolding built_meta_def by blast
  show "L0SingleBlockData v = of_nat (ones_upto W (4096 * 2147483647))"
    if "137438953408 < length W"
  proof -
    have "2147483647 \<le> sb" using that pk by simp
    then show ?thesis using l0 by simp
  qed
  show "L0SingleBlockData v = 0" if "length W \<le> 137438953400"
  proof -
    have "\<not> 2147483647 \<le> sb" using that pk by simp
    then show ?thesis using l0 by simp
  qed
qed

lemma accepted_nth_bit: "i < length (accepted s) \<Longrightarrow> bits_of s ! i = (accepted s ! i = CHR ''1'')"
  by (simp add: bits_of_def)

lemma length_bits_accepted [simp]: "length (bits_of s) = length (accepted s)"
  by (simp add: bits_of_def)

lemma accepted_all: "set s \<subseteq> {CHR ''0'', CHR ''1''} \<Longrightarrow> accepted s = s"
  unfolding accepted_def by (rule filter_True) auto

lemma access_bit:
  assumes "unat ptr div 64 < length (vector v)"
  shows "access v ptr = Some (of_bool (bit (vector v ! (unat ptr div 64)) (unat ptr mod 64)))"
proof -
  have u: "unat (drop_bit 6 ptr) = unat ptr div 64"
    by (simp only: unat_drop_bit_eq) (simp add: drop_bit_eq_div)
  have m: "unat (ptr AND 63) = unat ptr mod 64" using unat_bit [of ptr] by simp
  have "drop_bit k w AND 1 = (of_bool (bit w k) :: u64)" for k and w :: u64
    by (simp add: and_one_eq bit_iff_odd_drop_bit mod_2_eq_odd)
  then show ?thesis
    using assms by (simp add: access_def vec_at_def u m)
qed

text \<open>C3. The constructor keeps exactly the characters \<open>'0'\<close> and \<open>'1'\<close>; the \<open>i\<close>-th kept
  character is bit \<open>i mod 64\<close> of word \<open>i div 64\<close> and is what \<open>access(i)\<close> returns; for a
  string over \<open>{'0', '1'}\<close> reading \<open>access(0), ..., access(|s| - 1)\<close> gives back the string.\<close>

theorem constructor_access_round_trip:
  assumes "length s < 2 ^ 64"
  shows "\<exists>v. bitvector_of s = Some v \<and>
     (\<forall>c. skipped c \<longleftrightarrow> c \<noteq> CHR ''0'' \<and> c \<noteq> CHR ''1'') \<and>
     (\<forall>i < length (accepted s).
        bit (vector v ! (i div 64)) (i mod 64) = (accepted s ! i = CHR ''1'') \<and>
        access v (of_nat i) = Some (if accepted s ! i = CHR ''1'' then 1 else 0)) \<and>
     (set s \<subseteq> {CHR ''0'', CHR ''1''} \<longrightarrow>
        map (\<lambda>i. access v (of_nat i)) [0..<length s] =
        map (\<lambda>c. Some (if c = CHR ''1'' then 1 else 0)) s)"
proof -
  from bitvector_of_correct [of s] obtain v where
    c: "bitvector_of s = Some v" "length (vector v) = length s div 64 + 1"
    and bits: "\<And>j i. j < length (vector v) \<Longrightarrow> i < 64 \<Longrightarrow>
          bit (vector v ! j) i \<longleftrightarrow> (64 * j + i < length (bits_of s) \<and> bits_of s ! (64 * j + i))"
    by blast
  have one: "bit (vector v ! (i div 64)) (i mod 64) = (accepted s ! i = CHR ''1'') \<and>
        access v (of_nat i) = Some (if accepted s ! i = CHR ''1'' then 1 else 0)"
    if i: "i < length (accepted s)" for i
  proof -
    have "length (accepted s) \<le> length s" by (simp add: accepted_def)
    then have ils: "i < length s" using i by simp
    then have j: "i div 64 < length (vector v)" using c(2) by (simp add: div_le_mono less_Suc_eq_le)
    have "bit (vector v ! (i div 64)) (i mod 64) =
        (64 * (i div 64) + i mod 64 < length (bits_of s) \<and> bits_of s ! (64 * (i div 64) + i mod 64))"
      using j by (intro bits) simp_all
    then have b: "bit (vector v ! (i div 64)) (i mod 64) = (accepted s ! i = CHR ''1'')"
      using i by (simp add: accepted_nth_bit)
    have u: "unat (of_nat i :: u64) = i" using ils assms by (intro unat_of_nat64) simp
    have "access v (of_nat i) = Some (of_bool (bit (vector v ! (i div 64)) (i mod 64)))"
      using access_bit [of "of_nat i" v] j by (simp add: u)
    then show ?thesis using b by simp
  qed
  have rt: "map (\<lambda>i. access v (of_nat i)) [0..<length s] =
        map (\<lambda>c. Some (if c = CHR ''1'' then 1 else 0)) s"
    if "set s \<subseteq> {CHR ''0'', CHR ''1''}"
  proof (rule nth_equalityI)
    show "length (map (\<lambda>i. access v (of_nat i)) [0..<length s]) =
        length (map (\<lambda>c. Some (if c = CHR ''1'' then 1 else 0 :: u16)) s)" by simp
    fix i assume "i < length (map (\<lambda>i. access v (of_nat i)) [0..<length s])"
    then have i: "i < length s" by simp
    then show "map (\<lambda>i. access v (of_nat i)) [0..<length s] ! i =
        map (\<lambda>c. Some (if c = CHR ''1'' then 1 else 0)) s ! i"
      using one [of i] accepted_all [OF that] by simp
  qed
  show ?thesis
    using c(1) one rt skipped_iff by blast
qed

theorem constructor_access_round_trip_witness:
  "\<exists>v. bitvector_of ''0a1'' = Some v \<and> bit (vector v ! (1 div 64)) (1 mod 64) \<and>
     access v (of_nat 1) = Some 1 \<and>
     (\<exists>w. bitvector_of ''10'' = Some w \<and>
        map (\<lambda>i. access w (of_nat i)) [0..<length ''10''] = [Some 1, Some 0])"
proof -
  have h: "length ''0a1'' < 2 ^ 64" "length ''10'' < 2 ^ 64" by simp_all
  have a: "accepted ''0a1'' = ''01''" by (simp add: accepted_def)
  from constructor_access_round_trip [OF h(1)] obtain v where
    v: "bitvector_of ''0a1'' = Some v"
      "\<forall>i < length (accepted ''0a1'').
        bit (vector v ! (i div 64)) (i mod 64) = (accepted ''0a1'' ! i = CHR ''1'') \<and>
        access v (of_nat i) = Some (if accepted ''0a1'' ! i = CHR ''1'' then 1 else 0)"
    by blast
  have l: "1 < length ''01''" by simp
  have n: "''01'' ! 1 = CHR ''1''" by simp
  from v(2) [unfolded a, rule_format, OF l]
  have v1: "bit (vector v ! (1 div 64)) (1 mod 64)" "access v (of_nat 1) = Some 1"
    unfolding n by simp_all
  from constructor_access_round_trip [OF h(2)] obtain w where
    w: "bitvector_of ''10'' = Some w"
      "set ''10'' \<subseteq> {CHR ''0'', CHR ''1''} \<longrightarrow>
        map (\<lambda>i. access w (of_nat i)) [0..<length ''10''] =
        map (\<lambda>c. Some (if c = CHR ''1'' then 1 else 0)) ''10''"
    by blast
  have sub: "set ''10'' \<subseteq> {CHR ''0'', CHR ''1''}" by simp
  have m: "map (\<lambda>c. Some (if c = CHR ''1'' then 1 else 0 :: u16)) ''10'' = [Some 1, Some 0]" by simp
  from w(2) sub have "map (\<lambda>i. access w (of_nat i)) [0..<length ''10''] = [Some 1, Some 0]"
    unfolding m by blast
  with w(1) have inner: "\<exists>w. bitvector_of ''10'' = Some w \<and>
        map (\<lambda>i. access w (of_nat i)) [0..<length ''10''] = [Some 1, Some 0]"
    by (intro exI [of _ w] conjI)
  show ?thesis
    by (rule exI [of _ v], intro conjI) (rule v(1) v1 inner)+
qed

text \<open>C9. For every built bitvector and every position \<open>i\<close> with \<open>0 \<le> i \<le> N\<close> (\<open>N\<close> the
  number of accepted characters), both ranks are answered and, as natural numbers,
  \<open>rank(i, 0) + rank(i, 1) = i\<close>.\<close>

theorem rank_zero_plus_rank_one:
  assumes "length s < 2 ^ 63" and "i \<le> length (bits_of s)"
  shows "\<exists>r0 r1. run_rank s (of_nat i) 0 = Some r0 \<and> run_rank s (of_nat i) 1 = Some r1 \<and>
           unat r0 + unat r1 = i"
proof -
  have N: "length (bits_of s) \<le> length s" by (rule length_bits_of_le)
  have "length s < 2 ^ 64" using assms(1) by (rule less_trans) simp
  then have "i < 2 ^ 64" using assms(2) N by simp
  then have u: "unat (of_nat i :: u64) = i" by (rule unat_of_nat64)
  have "length s \<le> 64 * (length s div 64 + 1) - 1"
    by (rule length_le_limit)
  then have c: "clamp s (of_nat i) = i" using assms(2) N by (simp add: clamp_def u)
  have z: "((of_nat i :: u64) = 0) = (i = 0)"
  proof
    assume "(of_nat i :: u64) = 0"
    then have "unat (of_nat i :: u64) = 0" by simp
    then show "i = 0" by (simp only: u)
  qed simp
  from run_rank_sum [OF assms(1), of "of_nat i"] show ?thesis
    unfolding c z by auto
qed

theorem rank_zero_plus_rank_one_witness:
  "\<exists>r0 r1. run_rank ''0110100110010110'' (of_nat 9) 0 = Some r0 \<and>
     run_rank ''0110100110010110'' (of_nat 9) 1 = Some r1 \<and> unat r0 + unat r1 = 9"
  using rank_zero_plus_rank_one [of "''0110100110010110''" 9]
  by (simp add: bits_of_def accepted_def)

text \<open>C4, as the specification states it: a position \<open>i > N\<close> is answered as position
  \<open>N - 1\<close>. It fails on the one-bit vector \<open>1\<close> (\<open>N = 1\<close>): \<open>rank(2, 1)\<close> is 1, because
  position 2 lies inside the (zero-padded) word and is not clamped at all, while
  \<open>rank(N - 1, 1) = rank(0, 1)\<close> is 0.\<close>

theorem rank_clamp_counterexample:
  "run_rank ''1'' 2 1 = Some 1 \<and> run_rank ''1'' 0 1 = Some 0"
  by code_simp

text \<open>C4, amended. The clamp is at the last position of the word array, \<open>L = 64 |W| - 1\<close>,
  where \<open>|W| = length s div 64 + 1\<close> counts the words the constructor allocates. A position
  \<open>i > N\<close> is answered as position \<open>min i L\<close>, and the two ranks of \<open>i\<close> add up to \<open>min i L\<close>
  over the naturals. For a string of fewer than \<open>2^43 - 4096\<close> characters the answers are the
  number of 1-bits of \<open>B\<close> for bit value 1, and \<open>min i L\<close> minus that number for bit value 0:
  the padding of the last word is counted as 0-bits.\<close>

theorem rank_clamp_to_last_word_position:
  assumes "length s < 2 ^ 63" and "length (bits_of s) < unat i"
  shows "run_rank s i b = run_rank s (of_nat (min (unat i) (64 * (length s div 64 + 1) - 1))) b \<and>
     (\<exists>r0 r1. run_rank s i 0 = Some r0 \<and> run_rank s i 1 = Some r1 \<and>
        unat r0 + unat r1 = min (unat i) (64 * (length s div 64 + 1) - 1)) \<and>
     (length s < 8796093018112 \<longrightarrow>
        run_rank s i 1 = Some (of_nat (count_list (bits_of s) True)) \<and>
        run_rank s i 0 = Some (of_nat (min (unat i) (64 * (length s div 64 + 1) - 1) -
                                          count_list (bits_of s) True)))"
proof -
  define q where "q = min (unat i) (64 * (length s div 64 + 1) - 1)"
  have q: "clamp s i = q" by (simp add: clamp_def q_def)
  have inz: "i \<noteq> 0" using assms(2) by auto
  have N: "length (bits_of s) \<le> length s" by (rule length_bits_of_le)
  have sL: "length s \<le> 64 * (length s div 64 + 1) - 1"
    by (rule length_le_limit)
  have Nq: "length (bits_of s) \<le> q" using assms(2) N sL by (simp add: q_def)
  have "length s div 64 < 2 ^ 57" using assms(1) by (simp add: less_mult_imp_div_less)
  then have "q < 2 ^ 64" by (simp add: q_def min_def)
  then have uq: "unat (of_nat q :: u64) = q" by (rule unat_of_nat64)
  have "0 < unat i" using assms(2) by simp
  then have q0: "0 < q" by (simp add: q_def)
  have qnz: "(of_nat q :: u64) \<noteq> 0"
  proof
    assume "(of_nat q :: u64) = 0"
    then have "unat (of_nat q :: u64) = 0" by simp
    then show False using q0 by (simp only: uq)
  qed
  have qq: "clamp s (of_nat q) = q" by (simp add: clamp_def uq) (simp add: q_def)
  from run_rank_clamp [OF assms(1)] obtain v where
    r: "\<And>i b. run_rank s i b =
       (if i = 0 then Some 0
        else if b = 1 then rank_1 v (of_nat (clamp s i))
        else Option.bind (rank_1 v (of_nat (clamp s i))) (\<lambda>r. Some (of_nat (clamp s i) - r)))"
    by metis
  have one: "run_rank s i b = run_rank s (of_nat q) b"
    unfolding r [of i] r [of "of_nat q"] q qq using inz qnz by simp
  have two: "\<exists>r0 r1. run_rank s i 0 = Some r0 \<and> run_rank s i 1 = Some r1 \<and> unat r0 + unat r1 = q"
    using run_rank_sum [OF assms(1), of i] inz by (simp add: q)
  have three: "run_rank s i 1 = Some (of_nat (count_list (bits_of s) True)) \<and>
        run_rank s i 0 = Some (of_nat (q - count_list (bits_of s) True))"
    if "length s < 8796093018112"
    using run_rank_small [OF that, of i 1] run_rank_small [OF that, of i 0] inz
    by (simp add: q occ_all [OF Nq])
  show ?thesis
    using one two three unfolding q_def by blast
qed

theorem rank_clamp_to_last_word_position_witness:
  "run_rank ''0110100110010110'' 200 0 = run_rank ''0110100110010110'' 63 0 \<and>
   run_rank ''0110100110010110'' 200 1 = Some 8 \<and>
   run_rank ''0110100110010110'' 200 0 = Some 55 \<and>
   run_rank ''0110100110010110'' 17 1 = Some 8 \<and>
   run_rank ''0110100110010110'' 17 0 = Some 9"
proof -
  have h1: "length ''0110100110010110'' < 2 ^ 63" by simp
  have h2: "length (bits_of ''0110100110010110'') < unat (200 :: u64)"
    "length (bits_of ''0110100110010110'') < unat (17 :: u64)"
    by (simp_all add: bits_of_def accepted_def)
  have h3: "length ''0110100110010110'' < 8796093018112" by simp
  have c: "count_list (bits_of ''0110100110010110'') True = 8"
    by (simp add: bits_of_def accepted_def)
  have e0: "(64 * (length ''0110100110010110'' div 64 + 1) - 1) = (63 :: nat)" by simp
  have e1: "min (unat (200 :: u64)) 63 = 63" "min (unat (17 :: u64)) 63 = 17" by simp_all
  have e: "of_nat 63 = (63 :: u64)" "of_nat (63 - 8) = (55 :: u64)" "of_nat (17 - 8) = (9 :: u64)"
    "of_nat 17 = (17 :: u64)" "of_nat 8 = (8 :: u64)"
    by simp_all
  note t1 = rank_clamp_to_last_word_position [OF h1 h2(1), of 0, unfolded c e0 e1 e]
  note t2 = rank_clamp_to_last_word_position [OF h1 h2(2), of 0, unfolded c e0 e1 e]
  have a: "run_rank ''0110100110010110'' 200 0 = run_rank ''0110100110010110'' 63 0"
    "run_rank ''0110100110010110'' 200 1 = Some 8" "run_rank ''0110100110010110'' 200 0 = Some 55"
    using t1 h3 by blast+
  have b: "run_rank ''0110100110010110'' 17 1 = Some 8" "run_rank ''0110100110010110'' 17 0 = Some 9"
    using t2 h3 by blast+
  from a b show ?thesis by simp
qed

text \<open>C1 fails beyond the L0 split. The builder restarts the cumulative count of the
  superblocks at superblock number \<open>SUPERBLOCKS_PER_L0 = 2^31 - 1\<close>, that is at bit
  \<open>2^43 - 4096\<close>, but \<open>rank_1\<close> adds the count of the first region only to positions above
  \<open>L0BLOCK_SIZE = 2^44 - 1\<close>. For the string of a \<open>1\<close> followed by \<open>2^43 - 4096\<close> zeros
  (\<open>N = 2^43 - 4095\<close>) and the position \<open>i = 2^43 - 4096 \<le> N\<close>, one 1-bit lies before \<open>i\<close>,
  but \<open>rank(i, 1)\<close> is 0.\<close>

theorem rank_wrong_beyond_l0_split:
  "run_rank (CHR ''1'' # replicate 8796093018112 (CHR ''0'')) 8796093018112 1 = Some 0 \<and>
   occ True (bits_of (CHR ''1'' # replicate 8796093018112 (CHR ''0''))) 8796093018112 = 1 \<and>
   8796093018112 \<le> length (bits_of (CHR ''1'' # replicate 8796093018112 (CHR ''0'')))"
proof -
  define s where "s = CHR ''1'' # replicate 8796093018112 (CHR ''0'')"
  have len: "length s = 8796093018113" by (simp add: s_def)
  have B: "bits_of s = True # replicate 8796093018112 False"
    unfolding s_def bits_of_Cons_1 bits_of_zeros ..
  have l63: "length s < 2 ^ 63" unfolding len by simp
  from run_rank_clamp [OF l63] obtain v where v: "built_ok (vector v) v" "built_meta (vector v) v"
    "length (vector v) = length s div 64 + 1"
    and r: "\<And>i b. run_rank s i b =
       (if i = 0 then Some 0
        else if b = 1 then rank_1 v (of_nat (clamp s i))
        else Option.bind (rank_1 v (of_nat (clamp s i))) (\<lambda>r. Some (of_nat (clamp s i) - r)))"
    by metis
  have n: "length (vector v) = 137438953409" unfolding v(3) len by simp
  have c: "clamp s 8796093018112 = 8796093018112" by (simp add: clamp_def len)
  have n38: "length (vector v) \<le> 2 ^ 38" unfolding n by simp
  have p: "unat (8796093018112 :: u64) < 64 * length (vector v)" unfolding n by simp
  have l0: "l0_start (unat (8796093018112 :: u64) div 4096) = 2147483647" by (simp add: l0_start_def)
  have "rank_1 v 8796093018112 = Some 0"
    using rank_1_val [OF v(1,2) n38 p] unfolding l0 by simp
  then have one: "run_rank s 8796093018112 1 = Some 0" unfolding r c by simp
  have two: "occ True (bits_of s) 8796093018112 = 1"
    unfolding B by (simp add: occ_Cons occ_replicate_none)
  have three: "8796093018112 \<le> length (bits_of s)" unfolding B by simp
  show ?thesis using one two three unfolding s_def by (intro conjI)
qed

text \<open>C6 fails in the code: the constant \<open>SUPERBLOCKS_PER_L0\<close> is \<open>0x7FFFFFFF = 2^31 - 1\<close>, so
  the snapshot is taken when the superblock number reaches \<open>2^31 - 1\<close>. For the string of a
  \<open>1\<close> followed by \<open>2^43 - 4096\<close> zeros the superblock array has \<open>2^31\<close> superblocks,
  numbered \<open>0\<close> to \<open>2^31 - 1\<close>; the number \<open>2^31\<close> is never reached, and yet the built
  bitvector holds the snapshot \<open>L0SingleBlockData = oneCount = 1\<close>.\<close>

theorem l0_snapshot_one_superblock_early:
  "SUPERBLOCKS_PER_L0 = 2 ^ 31 - 1 \<and>
   (\<exists>v. built (CHR ''1'' # replicate 8796093018112 (CHR ''0'')) = Some v \<and>
        length (superBlocks v) = 2 * 2 ^ 31 \<and> L0SingleBlockData v = 1 \<and> oneCount v = 1)"
proof -
  define s where "s = CHR ''1'' # replicate 8796093018112 (CHR ''0'')"
  have len: "length s = 8796093018113" by (simp add: s_def)
  have B: "bits_of s = True # replicate 8796093018112 False"
    unfolding s_def bits_of_Cons_1 bits_of_zeros ..
  have l63: "length s < 2 ^ 63" unfolding len by simp
  from built_facts [OF l63] obtain v where v: "built s = Some v"
    "length (vector v) = length s div 64 + 1"
    "bits_of_words (vector v) = bits_of s @ replicate (64 * length (vector v) - length (bits_of s)) False"
    "built_ok (vector v) v" "built_meta (vector v) v"
    "length (bits_of s) < 64 * length (vector v)"
    by metis
  have n: "length (vector v) = 137438953409" unfolding v(2) len by simp
  have ones: "ones_upto (vector v) p = occ True (bits_of s) p" for p
    unfolding v(3) by (rule occ_pad)
  have "L0SingleBlockData v = of_nat (ones_upto (vector v) (4096 * 2147483647))"
    using v(5) by (rule built_l0_data) (simp add: n)
  also have "ones_upto (vector v) (4096 * 2147483647) = 1"
    unfolding ones B by (simp add: occ_Cons occ_replicate_none)
  finally have l0: "L0SingleBlockData v = 1" by simp
  have sz: "length (superBlocks v) = 2 * 2 ^ 31"
    using v(4) unfolding built_ok_def n by simp
  have m: "0 < 64 * length (vector v) - length (bits_of s)" using v(6) by simp
  have "oneCount v = of_nat (count_list (bits_of s) True)"
    using v(4,3) m by (rule cached_values)
  then have oc: "oneCount v = 1" unfolding B by (simp add: count_list_replicate)
  have "\<exists>v. built s = Some v \<and> length (superBlocks v) = 2 * 2 ^ 31 \<and>
      L0SingleBlockData v = 1 \<and> oneCount v = 1"
    using v(1) sz l0 oc by blast
  then show ?thesis unfolding s_def by (simp add: SUPERBLOCKS_PER_L0_def)
qed


text \<open>C2 fails beyond the L0 split, by the defect reported for C1. For the string with a
  \<open>1\<close> at position 0 and a \<open>1\<close> at position \<open>2^43 - 4096\<close> and zeros between them,
  \<open>total_count(1) = 2\<close> and \<open>select(2, 1)\<close> is the position \<open>2^43 - 4096\<close> of the second
  1-bit, but \<open>rank(select(2, 1) + 1, 1)\<close> is 1, not 2.\<close>

theorem rank_of_select_wrong_beyond_l0_split:
  "run_select (CHR ''1'' # replicate 8796093018111 (CHR ''0'') @ ''1'') 2 1 = Some 8796093018112 \<and>
   run_rank (CHR ''1'' # replicate 8796093018111 (CHR ''0'') @ ''1'') (8796093018112 + 1) 1 = Some 1 \<and>
   count_list (bits_of (CHR ''1'' # replicate 8796093018111 (CHR ''0'') @ ''1'')) True = 2"
proof -
  define s where "s = CHR ''1'' # replicate 8796093018111 (CHR ''0'') @ ''1''"
  have len: "length s = 8796093018113" by (simp add: s_def)
  have B: "bits_of s = True # replicate 8796093018111 False @ [True]"
    unfolding s_def bits_of_Cons_1 bits_of_append bits_of_zeros by (simp add: bits_of_def accepted_def)
  have l63: "length s < 2 ^ 63" unfolding len by simp
  from run_rank_clamp [OF l63] obtain v where v: "built s = Some v"
    "built_ok (vector v) v" "built_meta (vector v) v"
    "length (vector v) = length s div 64 + 1"
    "bits_of_words (vector v) = bits_of s @ replicate (64 * length (vector v) - length (bits_of s)) False"
    and r: "\<And>i b. run_rank s i b =
       (if i = 0 then Some 0
        else if b = 1 then rank_1 v (of_nat (clamp s i))
        else Option.bind (rank_1 v (of_nat (clamp s i))) (\<lambda>r. Some (of_nat (clamp s i) - r)))"
    by metis
  have n: "length (vector v) = 137438953409" unfolding v(4) len by simp
  have ones: "ones_upto (vector v) p = occ True (bits_of s) p" for p
    unfolding v(5) by (rule occ_pad)
  have cnt: "count_list (bits_of s) True = 2" unfolding B by (simp add: count_list_replicate)
  have m: "0 < 64 * length (vector v) - length (bits_of s)" unfolding n B by simp
  have t: "True \<in> set (bits_of s)" unfolding B by simp
  note c = cached_values [OF v(2,5) m]
  have "last_index True (bits_of s) = length (True # replicate 8796093018111 False) + last_index True [True]"
    unfolding B using last_index_append [of True "True # replicate 8796093018111 False" "[True]"]
    by simp
  also have "last_index True [True] = 0" by (simp add: last_index_def)
  finally have li: "last_index True (bits_of s) = 8796093018112" by simp
  have sel: "run_select s 2 1 = Some 8796093018112"
    unfolding run_select_def v(1) using c(1) c(4) [OF t]
    by (simp add: select_def select_1_def cnt li)
  have cl: "clamp s (8796093018112 + 1) = 8796093018113" by (simp add: clamp_def len)
  have n38: "length (vector v) \<le> 2 ^ 38" unfolding n by simp
  have p: "unat (8796093018113 :: u64) < 64 * length (vector v)" unfolding n by simp
  have l0: "l0_start (unat (8796093018113 :: u64) div 4096) = 2147483647" by (simp add: l0_start_def)
  have o: "occ True (bits_of s) 8796093018113 = 2" "occ True (bits_of s) 8796093018112 = 1"
    unfolding B by (simp_all add: occ_Cons occ_replicate_other occ_def)
  have "rank_1 v 8796093018113 = Some 1"
    using rank_1_val [OF v(2,3) n38 p] unfolding l0 ones by (simp add: o)
  then have rk: "run_rank s (8796093018112 + 1) 1 = Some 1" unfolding r cl by simp
  show ?thesis using sel rk cnt unfolding s_def by (intro conjI)
qed

section \<open>select: the two fast answers\<close>

lemma last_index_none: "b \<notin> set B \<Longrightarrow> last_index b B = 0"
proof -
  assume nb: "b \<notin> set B"
  have "\<forall>x\<in>set (rev B). x \<noteq> b"
  proof
    fix x assume "x \<in> set (rev B)"
    then have "x \<in> set B" by (simp only: set_rev)
    with nb show "x \<noteq> b" by blast
  qed
  then have "takeWhile (\<lambda>x. x \<noteq> b) (rev B) = rev B"
    by (rule takeWhile_eq_all_conv [THEN iffD2])
  then have l: "length (takeWhile (\<lambda>x. x \<noteq> b) (rev B)) = length B" by (simp only: length_rev)
  show ?thesis unfolding last_index_def l by simp
qed

lemma occ_zero_iff: "occ b B p = 0 \<longleftrightarrow> b \<notin> set (take p B)"
  by (simp add: occ_def count_list_0_iff)

text \<open>A count of zero leaves the cached last position at its initial value 0.\<close>

lemma count_zero_last:
  assumes "length W < 2 ^ 58" and "(of_nat (occ b (bits_of_words W) (64 * length W)) :: u64) = 0"
  shows "last_index b (take (64 * length W) (bits_of_words W)) = 0"
proof -
  have "occ b (bits_of_words W) (64 * length W) \<le> 64 * length W" by (rule occ_le)
  also have "\<dots> < 2 ^ 64" using assms(1) by simp
  finally have u: "unat (of_nat (occ b (bits_of_words W) (64 * length W)) :: u64) =
      occ b (bits_of_words W) (64 * length W)" by (rule unat_of_nat64)
  have "unat (of_nat (occ b (bits_of_words W) (64 * length W)) :: u64) = 0"
    unfolding assms(2) by simp
  then have "occ b (bits_of_words W) (64 * length W) = 0" by (simp only: u)
  then have "b \<notin> set (take (64 * length W) (bits_of_words W))" by (rule occ_zero_iff [THEN iffD1])
  then show ?thesis by (rule last_index_none)
qed

lemma word_loop_zero:
  assumes "0 < length W"
  shows "word_loop c W 0 0 0 8 = Some 0"
proof -
  have e: "(8 :: nat) = Suc 7" by simp
  have b: "bit_loop 0 w 0 = Some 0" for w by (subst bit_loop.simps) simp
  show ?thesis
    unfolding e word_loop.simps using assms by (simp add: vec_at_def b)
qed

lemma block_scan_zero: "block_scan (f # fs) 0 0 0 = (0, 0)"
  by simp

lemma select_1_zero:
  assumes ok: "built_ok W v" and n: "0 < length W" "length W < 2 ^ 58"
  shows "select_1 v 0 = Some 0"
proof (cases "0 = oneCount v")
  case True
  from ok have "oneCount v = of_nat (occ True (bits_of_words W) (64 * length W))"
    and l: "lastOnePos v = of_nat (last_index True (take (64 * length W) (bits_of_words W)))"
    by (simp_all add: built_ok_def cnt_inv_def)
  with True have "(of_nat (occ True (bits_of_words W) (64 * length W)) :: u64) = 0" by simp
  from count_zero_last [OF n(2) this] have "lastOnePos v = 0" using l by simp
  then show ?thesis using True by (simp add: select_1_def)
next
  case False
  from ok have vW: "vector v = W" and lenS: "length (superBlocks v) = 2 * (length W div 64) + 2"
    and z: "drop_bit 20 (superBlocks v ! 0) = 0"
    by (simp_all add: built_ok_def cnt_inv_def)
  have s2: "(if length (superBlocks v) \<le> 2 then Some 0 else vec_at (superBlocks v) 2) =
      Some (if length (superBlocks v) \<le> 2 then 0 else superBlocks v ! 2)"
    by (simp add: vec_at_def)
  have f: "block_fields m1 m2 = hd (block_fields m1 m2) # tl (block_fields m1 m2)" for m1 m2
    by (simp add: block_fields_def)
  have bs: "block_scan (block_fields m1 m2) 0 0 0 = (0, 0)" for m1 m2
    by (subst f) (rule block_scan_zero)
  show ?thesis
    unfolding select_1_def Let_def s2 using False lenS z
    by (simp add: vec_at_def bs vW word_loop_zero [OF n(1)] L0BLOCK_SIZE_def)
qed

lemma select_0_zero:
  assumes ok: "built_ok W v" and n: "0 < length W" "length W < 2 ^ 58"
  shows "select_0 v 0 = Some 0"
proof (cases "0 = zeroCount v")
  case True
  from ok have "zeroCount v = of_nat (occ False (bits_of_words W) (64 * length W))"
    and l: "lastZeroPos v = of_nat (last_index False (take (64 * length W) (bits_of_words W)))"
    by (simp_all add: built_ok_def cnt_inv_def)
  with True have "(of_nat (occ False (bits_of_words W) (64 * length W)) :: u64) = 0" by simp
  from count_zero_last [OF n(2) this] have "lastZeroPos v = 0" using l by simp
  then show ?thesis using True by (simp add: select_0_def)
next
  case False
  from ok have vW: "vector v = W" and lenS: "length (superBlocks v) = 2 * (length W div 64) + 2"
    and z: "drop_bit 20 (superBlocks v ! 0) = 0"
    by (simp_all add: built_ok_def cnt_inv_def)
  have s2: "(if length (superBlocks v) \<le> 2 then Some 0 else vec_at (superBlocks v) 2) =
      Some (if length (superBlocks v) \<le> 2 then 0 else superBlocks v ! 2)"
    by (simp add: vec_at_def)
  have bs: "block_scan (map2 (\<lambda>t f. t - f) [512, 1024, 1536, 2048, 2560, 3072, 3584]
      (block_fields m1 m2)) 0 0 0 = (0, 0)" for m1 m2 :: u64
    by (simp add: block_fields_def)
  show ?thesis
    unfolding select_0_def Let_def s2 using False lenS z
    by (simp add: vec_at_def bs vW word_loop_zero [OF n(1)] L0BLOCK_SIZE_def)
qed

text \<open>C7. On every built bitvector \<open>select(0, b)\<close> is answered, and the answer is 0, for
  every bit value \<open>b\<close>.\<close>

theorem select_zero_is_zero:
  assumes "length s < 2 ^ 63"
  shows "run_select s 0 b = Some 0"
proof -
  from built_facts [OF assms] obtain v where v: "built s = Some v"
    "length (vector v) = length s div 64 + 1" "built_ok (vector v) v" "length (vector v) < 2 ^ 58"
    by metis
  have n0: "0 < length (vector v)" using v(2) by simp
  show ?thesis
    unfolding run_select_def v(1) select_def
    using select_1_zero [OF v(3) n0 v(4)] select_0_zero [OF v(3) n0 v(4)] by simp
qed

theorem select_zero_is_zero_witness:
  "run_select ''0110100110010110'' 0 1 = Some 0 \<and> run_select ''0110100110010110'' 0 0 = Some 0"
proof -
  have h: "length ''0110100110010110'' < 2 ^ 63" by simp
  show ?thesis
    using select_zero_is_zero [OF h, of 1] select_zero_is_zero [OF h, of 0] by (rule conjI)
qed

text \<open>C8, as the specification states it, on the one-bit vector \<open>0\<close>: the position of the
  final 0-bit is 0 and \<open>select(1, 0)\<close> returns it, but the cached \<open>lastZeroPos\<close> is 63 and
  the cached \<open>zeroCount\<close> is 64, because both count the 63 padding bits of the word.\<close>

theorem select_last_zero_counterexample:
  "run_select ''0'' 1 0 = Some 0 \<and> map_option lastZeroPos (built ''0'') = Some 63 \<and>
   map_option zeroCount (built ''0'') = Some 64"
  by code_simp

text \<open>C8, amended. \<open>select(total_count(1), 1)\<close> is answered by the fast path with
  \<open>lastOnePos\<close>, which is the position of the final 1-bit of \<open>B\<close> when there is one. The
  cached values for zeros count the zero padding of the word array: \<open>zeroCount\<close> is
  \<open>total_count(0)\<close> plus the \<open>64 |W| - N\<close> padding bits, \<open>lastZeroPos\<close> is \<open>64 |W| - 1\<close>, and
  the fast path answers \<open>select(zeroCount, 0)\<close> with it; \<open>total_count(0)\<close> differs from
  \<open>zeroCount\<close>, so \<open>select(total_count(0), 0)\<close> is not answered by the fast path.\<close>

theorem select_last_cached:
  assumes "length s < 2 ^ 63"
  shows "\<exists>v. built s = Some v \<and>
     oneCount v = of_nat (count_list (bits_of s) True) \<and>
     run_select s (of_nat (count_list (bits_of s) True)) 1 = Some (lastOnePos v) \<and>
     (True \<in> set (bits_of s) \<longrightarrow>
        (\<exists>p < length (bits_of s). lastOnePos v = of_nat p \<and> bits_of s ! p \<and>
           (\<forall>q. p < q \<and> q < length (bits_of s) \<longrightarrow> \<not> bits_of s ! q))) \<and>
     zeroCount v =
       of_nat (count_list (bits_of s) False + (64 * (length s div 64 + 1) - length (bits_of s))) \<and>
     lastZeroPos v = of_nat (64 * (length s div 64 + 1) - 1) \<and>
     run_select s (zeroCount v) 0 = Some (lastZeroPos v) \<and>
     of_nat (count_list (bits_of s) False) \<noteq> zeroCount v"
proof -
  from built_facts [OF assms] obtain v where v: "built s = Some v"
    "length (vector v) = length s div 64 + 1"
    "bits_of_words (vector v) = bits_of s @ replicate (64 * length (vector v) - length (bits_of s)) False"
    "built_ok (vector v) v" "length (vector v) < 2 ^ 58" "length (bits_of s) < 64 * length (vector v)"
    by metis
  define B where "B = bits_of s"
  define m where "m = 64 * length (vector v) - length B"
  have m: "0 < m" using v(6) by (simp add: m_def B_def)
  have bits: "bits_of_words (vector v) = B @ replicate m False"
    using v(3) by (simp only: m_def B_def)
  note c = cached_values [OF v(4) bits m]
  have s1: "run_select s (of_nat (count_list B True)) 1 = Some (lastOnePos v)"
    unfolding run_select_def v(1) by (simp add: select_def select_1_def c(1))
  have s0: "run_select s (zeroCount v) 0 = Some (lastZeroPos v)"
    unfolding run_select_def v(1) by (simp add: select_def select_0_def)
  have last1: "\<exists>p < length B. lastOnePos v = of_nat p \<and> B ! p \<and>
           (\<forall>q. p < q \<and> q < length B \<longrightarrow> \<not> B ! q)" if t: "True \<in> set B"
  proof -
    from last_index_props [OF t]
    have "last_index True B < length B" "B ! last_index True B"
      "\<And>q. last_index True B < q \<Longrightarrow> q < length B \<Longrightarrow> \<not> B ! q"
      by auto
    with c(4) [OF t] show ?thesis by blast
  qed
  have "count_list B False + length B \<le> 2 * length B"
    using count_list_le_length [of B False] by simp
  have tot: "count_list B False + m < 2 ^ 64"
  proof -
    have "count_list B False \<le> length B" by (rule count_list_le_length)
    then have "count_list B False + m \<le> 64 * length (vector v)" using v(6) by (simp add: m_def B_def)
    also have "\<dots> < 2 ^ 64" using v(5) by simp
    finally show ?thesis .
  qed
  have ne: "of_nat (count_list B False) \<noteq> zeroCount v"
  proof
    assume "of_nat (count_list B False) = zeroCount v"
    then have "unat (of_nat (count_list B False) :: u64) = unat (of_nat (count_list B False + m) :: u64)"
      by (simp only: c(2))
    moreover have "unat (of_nat (count_list B False) :: u64) = count_list B False"
      using tot by (intro unat_of_nat64) simp
    moreover have "unat (of_nat (count_list B False + m) :: u64) = count_list B False + m"
      using tot by (rule unat_of_nat64)
    ultimately show False using m by simp
  qed
  show ?thesis
    using v(1) c(1,2,3) s1 s0 last1 ne
    unfolding B_def [symmetric] m_def v(2) by blast
qed

theorem select_last_cached_witness:
  "\<exists>v. built ''0110100110010110'' = Some v \<and>
     run_select ''0110100110010110'' 8 1 = Some (lastOnePos v) \<and> lastOnePos v = 14 \<and>
     zeroCount v = 56 \<and> lastZeroPos v = 63 \<and> run_select ''0110100110010110'' 56 0 = Some 63"
proof -
  define B where "B = bits_of ''0110100110010110''"
  have h: "length ''0110100110010110'' < 2 ^ 63" by simp
  have B: "B = [False, True, True, False, True, False, False, True,
                True, False, False, True, False, True, True, False]"
    by (simp add: B_def bits_of_def accepted_def)
  have c: "count_list B True = 8" "count_list B False = 8" "length B = 16" "True \<in> set B"
    unfolding B by simp_all
  have e: "(of_nat 8 :: u64) = 8" "(of_nat (8 + (64 * (length ''0110100110010110'' div 64 + 1) - 16)) :: u64) = 56"
    "(of_nat (64 * (length ''0110100110010110'' div 64 + 1) - 1) :: u64) = 63"
    by simp_all
  from select_last_cached [OF h, folded B_def, unfolded c e] obtain v where
    v: "built ''0110100110010110'' = Some v"
      "run_select ''0110100110010110'' 8 1 = Some (lastOnePos v)"
      "True \<in> set B \<longrightarrow> (\<exists>p < 16. lastOnePos v = of_nat p \<and> B ! p \<and> (\<forall>q. p < q \<and> q < 16 \<longrightarrow> \<not> B ! q))"
      "zeroCount v = 56" "lastZeroPos v = 63"
      "run_select ''0110100110010110'' (zeroCount v) 0 = Some (lastZeroPos v)"
    by blast
  from v(3) c(4) obtain p where p: "p < 16" "lastOnePos v = of_nat p" "B ! p"
    "\<And>q. p < q \<Longrightarrow> q < 16 \<Longrightarrow> \<not> B ! q" by blast
  have b14: "B ! 14" "\<not> B ! 15" unfolding B by simp_all
  have "\<not> p < 14" using p(4) [of 14] b14 by auto
  moreover have "p \<noteq> 15" using p(3) b14 by auto
  ultimately have "p = 14" using p(1) by simp
  then have l: "lastOnePos v = 14" using p(2) by simp
  show ?thesis
    by (rule exI [of _ v], intro conjI) (use v l in simp_all)
qed

section \<open>Dispatch on the bit value\<close>

text \<open>C10. Both query entry points only test whether the bit-value argument equals 1:
  for every other value \<open>v\<close> (0, 2, 255, ...) \<open>rank\<close> answers as for 0 and so does
  \<open>select\<close>, on any bitvector object and through the driver.\<close>

theorem dispatch_on_bit_value:
  "v \<noteq> 1 \<Longrightarrow>
     rank b i v = rank b i 0 \<and> select b k v = select b k 0 \<and>
     run_rank s i v = run_rank s i 0 \<and> run_select s k v = run_select s k 0"
  by (simp add: rank_def select_def run_rank_def run_select_def)

theorem dispatch_on_bit_value_witness:
  "(255 :: u8) \<noteq> 1 \<and> run_rank ''0110'' 3 255 = run_rank ''0110'' 3 0 \<and>
     run_select ''0110'' 2 255 = run_select ''0110'' 2 0"
  using dispatch_on_bit_value [of 255 undefined 3 2 "''0110''"] by simp

end
